theory Spec2Isabelle
  imports
    Complex_Main
    "HOL-Library.Multiset"
    "HOL-Library.Char_ord"
    "HOL-Library.List_Lexorder"
begin

section \<open>Parameter model of the enhancer view (src/views/Enhancer.tsx)\<close>

text \<open>
  \<open>AudioProcessParams\<close> is a flat object of 21 numeric fields. A JavaScript number is
  modelled as a real: the handlers only store constants and compare them, so rounding plays
  no part. The object is a total function from its keys, which makes the computed-key
  update \<open>{ ...params, [key]: value }\<close> of \<open>updateParam\<close> a function update.
\<close>

datatype param_key =
    Pitch | Stretch | Denoise | Deess | Reverb | ReverbDecay | MasterReverb | Stereo
  | Drive | Shift | Delay | DelayTime | DelayFeedback | EqBass | EqMid | EqAir | Master
  | VibratoDepth | VibratoSpeed | RingMod | BackingVocals

type_synonym AudioProcessParams = "param_key \<Rightarrow> real"

definition all_keys :: "param_key list" where
  "all_keys =
     [Pitch, Stretch, Denoise, Deess, Reverb, ReverbDecay, MasterReverb, Stereo,
      Drive, Shift, Delay, DelayTime, DelayFeedback, EqBass, EqMid, EqAir, Master,
      VibratoDepth, VibratoSpeed, RingMod, BackingVocals]"

fun INITIAL_PARAMS :: AudioProcessParams where
  "INITIAL_PARAMS Pitch = 0"
| "INITIAL_PARAMS Stretch = 1.0"
| "INITIAL_PARAMS Denoise = 0.1"
| "INITIAL_PARAMS Deess = 0.2"
| "INITIAL_PARAMS Reverb = 0.1"
| "INITIAL_PARAMS ReverbDecay = 1.5"
| "INITIAL_PARAMS MasterReverb = 1.0"
| "INITIAL_PARAMS Stereo = 0.1"
| "INITIAL_PARAMS Drive = 0.0"
| "INITIAL_PARAMS Shift = 0.0"
| "INITIAL_PARAMS Delay = 0.0"
| "INITIAL_PARAMS DelayTime = 0.3"
| "INITIAL_PARAMS DelayFeedback = 0.3"
| "INITIAL_PARAMS EqBass = 0"
| "INITIAL_PARAMS EqMid = 0"
| "INITIAL_PARAMS EqAir = 0"
| "INITIAL_PARAMS Master = 0"
| "INITIAL_PARAMS VibratoDepth = 0"
| "INITIAL_PARAMS VibratoSpeed = 0"
| "INITIAL_PARAMS RingMod = 0"
| "INITIAL_PARAMS BackingVocals = 0"

subsection \<open>History of parameter sets\<close>

text \<open>
  The three pieces of React state the handlers read and write. Each handler runs against
  the state of the render it was created in and is modelled as one state transition.
\<close>

record ui_state =
  params :: AudioProcessParams
  history :: "AudioProcessParams list"
  historyIndex :: nat

definition initial_state :: ui_state where
  "initial_state = \<lparr>params = INITIAL_PARAMS, history = [INITIAL_PARAMS], historyIndex = 0\<rparr>"

text \<open>
  \<open>history[newIndex]\<close> is \<open>undefined\<close> outside the array. Only \<open>handleUndo\<close> can read
  there (when \<open>historyIndex\<close> exceeds the length); \<open>params\<close> would become \<open>undefined\<close>
  and the next render of the component would throw. That outcome is the error value.
\<close>

datatype ui_error = UndefinedParams

definition addToHistory :: "AudioProcessParams \<Rightarrow> ui_state \<Rightarrow> ui_state" where
  "addToHistory newParams s =
     (let newHistory = take (historyIndex s + 1) (history s) @ [newParams]
      in s\<lparr>history := newHistory, historyIndex := length newHistory - 1\<rparr>)"

definition updateParam :: "param_key \<Rightarrow> real \<Rightarrow> bool \<Rightarrow> ui_state \<Rightarrow> ui_state" where
  "updateParam key val commit s =
     (let newParams = (params s)(key := val);
          s1 = s\<lparr>params := newParams\<rparr>
      in if commit then addToHistory newParams s1 else s1)"

definition handleUndo :: "ui_state \<Rightarrow> ui_error + ui_state" where
  "handleUndo s =
     (if historyIndex s > 0 then
        (let newIndex = historyIndex s - 1
         in if newIndex < length (history s)
            then Inr (s\<lparr>historyIndex := newIndex, params := history s ! newIndex\<rparr>)
            else Inl UndefinedParams)
      else Inr s)"

definition handleRedo :: "ui_state \<Rightarrow> ui_state" where
  "handleRedo s =
     (if historyIndex s < length (history s) - 1 then
        (let newIndex = historyIndex s + 1
         in s\<lparr>historyIndex := newIndex, params := history s ! newIndex\<rparr>)
      else s)"

definition handleReset :: "ui_state \<Rightarrow> ui_state" where
  "handleReset s = addToHistory INITIAL_PARAMS (s\<lparr>params := INITIAL_PARAMS\<rparr>)"

definition applyPreset :: "string \<Rightarrow> ui_state \<Rightarrow> ui_state" where
  "applyPreset name s =
     (let newParams = (params s)(RingMod := 0, VibratoDepth := 0, BackingVocals := 0);
          newParams = (if name = ''Child''
                       then newParams(Pitch := 6, Stretch := 1.0, EqBass := -5, EqAir := 5)
                       else newParams);
          newParams = (if name = ''Giant''
                       then newParams(Pitch := -4, Stretch := 1.0, EqBass := 8, EqAir := -5,
                                      Drive := 0.2)
                       else newParams);
          newParams = (if name = ''Robot''
                       then newParams(Pitch := 0, RingMod := 0.6, Drive := 0.4)
                       else newParams);
          newParams = (if name = ''Alien''
                       then newParams(Pitch := 0, VibratoDepth := 8.0, VibratoSpeed := 10,
                                      Delay := 0.2)
                       else newParams);
          newParams = (if name = ''Chorus''
                       then newParams(BackingVocals := 0.6, Reverb := 0.3, Stereo := 0.8)
                       else newParams);
          newParams = (if name = ''Nightcore''
                       then newParams(Pitch := 3, Stretch := 0.88, EqAir := 3, Denoise := 0)
                       else newParams);
          newParams = (if name = ''Slowed''
                       then newParams(Pitch := -3, Stretch := 1.15, Reverb := 0.5,
                                      ReverbDecay := 2.5, EqBass := 4)
                       else newParams);
          newParams = (if name = ''CopyrightBypass''
                       then newParams(Pitch := 0.7, Stretch := 0.97, Drive := 0.15,
                                      EqMid := 1.5, Stereo := 0.6)
                       else newParams)
      in addToHistory newParams (s\<lparr>params := newParams\<rparr>))"

definition undo_redo :: "ui_state \<Rightarrow> ui_error + ui_state" where
  "undo_redo s = (case handleUndo s of Inl e \<Rightarrow> Inl e | Inr s1 \<Rightarrow> Inr (handleRedo s1))"

subsection \<open>The controls that call the handlers\<close>

text \<open>
  The eleven \<open>SliderControl\<close> elements of the view, each with the key it passes to
  \<open>updateParam\<close> and its \<open>min\<close> and \<open>max\<close> attributes.
\<close>

datatype slider =
    BackingVocalsSlider | PitchSlider | SpeedSlider | RobotFxSlider | VibratoSlider
  | ReverbMixSlider | ReverbDecaySlider | DelayMixSlider | DelayTimeSlider
  | MasterReverbSlider | DriveSlider

fun slider_key :: "slider \<Rightarrow> param_key" where
  "slider_key BackingVocalsSlider = BackingVocals"
| "slider_key PitchSlider = Pitch"
| "slider_key SpeedSlider = Stretch"
| "slider_key RobotFxSlider = RingMod"
| "slider_key VibratoSlider = VibratoDepth"
| "slider_key ReverbMixSlider = Reverb"
| "slider_key ReverbDecaySlider = ReverbDecay"
| "slider_key DelayMixSlider = Delay"
| "slider_key DelayTimeSlider = DelayTime"
| "slider_key MasterReverbSlider = MasterReverb"
| "slider_key DriveSlider = Drive"

fun slider_min :: "slider \<Rightarrow> real" where
  "slider_min PitchSlider = -12"
| "slider_min SpeedSlider = 0.5"
| "slider_min ReverbDecaySlider = 0.5"
| "slider_min DelayTimeSlider = 0.01"
| "slider_min _ = 0"

fun slider_max :: "slider \<Rightarrow> real" where
  "slider_max PitchSlider = 12"
| "slider_max SpeedSlider = 1.5"
| "slider_max VibratoSlider = 10"
| "slider_max ReverbDecaySlider = 5.0"
| "slider_max _ = 1"

text \<open>
  What the user can do to the parameters: move a slider (\<open>onChange\<close>, no commit), release
  it (\<open>onCommit\<close>), press a preset button, undo, redo, reset.
\<close>

datatype ui_event =
    SliderChange slider real
  | SliderCommit slider real
  | PresetClick string
  | UndoClick
  | RedoClick
  | ResetClick

fun apply_event :: "ui_event \<Rightarrow> ui_state \<Rightarrow> ui_error + ui_state" where
  "apply_event (SliderChange sl v) s = Inr (updateParam (slider_key sl) v False s)"
| "apply_event (SliderCommit sl v) s = Inr (updateParam (slider_key sl) v True s)"
| "apply_event (PresetClick name) s = Inr (applyPreset name s)"
| "apply_event UndoClick s = handleUndo s"
| "apply_event RedoClick s = Inr (handleRedo s)"
| "apply_event ResetClick s = Inr (handleReset s)"

fun run_events :: "ui_event list \<Rightarrow> ui_state \<Rightarrow> ui_error + ui_state" where
  "run_events [] s = Inr s"
| "run_events (e # es) s =
     (case apply_event e s of Inl err \<Rightarrow> Inl err | Inr s1 \<Rightarrow> run_events es s1)"

text \<open>The value a slider hands to its callbacks lies between its \<open>min\<close> and \<open>max\<close>.\<close>

fun slider_event_ok :: "ui_event \<Rightarrow> bool" where
  "slider_event_ok (SliderChange sl v) = (slider_min sl \<le> v \<and> v \<le> slider_max sl)"
| "slider_event_ok (SliderCommit sl v) = (slider_min sl \<le> v \<and> v \<le> slider_max sl)"
| "slider_event_ok _ = True"

subsection \<open>Declared domains\<close>

text \<open>
  Modelled from the spec: the table of declared \<open>[min, max]\<close> domains of section 3 (the
  declaration of \<open>AudioProcessParams\<close> in \<open>types.ts\<close> is not among the sources). The three
  EQ gains, the master gain, the vibrato rate and \<open>shift\<close> have no numeric bounds there.
\<close>

fun declared_domain :: "param_key \<Rightarrow> (real \<times> real) option" where
  "declared_domain Pitch = Some (-12, 12)"
| "declared_domain Stretch = Some (0.5, 1.5)"
| "declared_domain Denoise = Some (0, 1)"
| "declared_domain Deess = Some (0, 1)"
| "declared_domain Reverb = Some (0, 1)"
| "declared_domain ReverbDecay = Some (0.5, 5)"
| "declared_domain MasterReverb = Some (0, 1)"
| "declared_domain Stereo = Some (0, 1)"
| "declared_domain Drive = Some (0, 1)"
| "declared_domain Delay = Some (0, 1)"
| "declared_domain DelayTime = Some (0.01, 1)"
| "declared_domain DelayFeedback = Some (0, 1)"
| "declared_domain VibratoDepth = Some (0, 10)"
| "declared_domain RingMod = Some (0, 1)"
| "declared_domain BackingVocals = Some (0, 1)"
| "declared_domain _ = None"

definition in_range :: "param_key \<Rightarrow> real \<Rightarrow> bool" where
  "in_range k v = (case declared_domain k of None \<Rightarrow> True | Some (lo, hi) \<Rightarrow> lo \<le> v \<and> v \<le> hi)"

definition in_domain :: "AudioProcessParams \<Rightarrow> bool" where
  "in_domain p = list_all (\<lambda>k. in_range k (p k)) all_keys"

text \<open>
  The state is coherent for a property \<open>P\<close> of parameter sets when the cursor points into
  the history and the current set and every recorded set satisfy \<open>P\<close>.
\<close>

definition history_ok :: "(AudioProcessParams \<Rightarrow> bool) \<Rightarrow> ui_state \<Rightarrow> bool" where
  "history_ok P s \<longleftrightarrow>
     historyIndex s < length (history s) \<and> P (params s) \<and> list_all P (history s)"

text \<open>
  A state the view reaches by pressing the preset button "Baby" and then dragging the
  pitch slider to 5 without releasing it.
\<close>

definition pending_drag_state :: ui_state where
  "pending_drag_state = updateParam Pitch 5 False (applyPreset ''Child'' initial_state)"

section \<open>Library store (src/services/cloudService.ts)\<close>

text \<open>
  A library entry. The declaration of \<open>FeedPost\<close> in \<open>types.ts\<close> is not among the
  sources; the fields are those of the object literal in \<open>handleSaveToCloud\<close>. The field
  \<open>id\<close> is written \<open>id'\<close>.
\<close>

record FeedPost =
  id' :: string
  name :: string
  date :: string
  tags :: "string list"
  blob :: "nat list option"
  duration :: real

text \<open>
  The two stores. \<open>tracksStore\<close> is the IndexedDB object store \<open>tracks\<close> with key path
  \<open>id\<close>, held as the list of its records in key order (strings compared
  lexicographically, character by character). JavaScript arrays live in
  \<open>arrays\<close> under a reference, so that a copy and the array it was copied from can be
  told apart; \<open>memoryStore\<close> is the reference held by the module variable.
\<close>

record cloud_state =
  tracksStore :: "FeedPost list"
  arrays :: "nat \<Rightarrow> FeedPost list"
  nextArray :: nat
  memoryStore :: nat

definition initial_cloud :: cloud_state where
  "initial_cloud = \<lparr>tracksStore = [], arrays = (\<lambda>r. []), nextArray = 1, memoryStore = 0\<rparr>"

text \<open>
  What the browser does during one call: \<open>openDB\<close> rejects (the \<open>catch\<close> branch runs),
  the database opens but the request fails (the returned promise rejects; it is returned
  without \<open>await\<close>, so the \<open>catch\<close> does not see it), or the request succeeds.
\<close>

datatype idb_outcome = IdbUnavailable | IdbRequestFails | IdbOk

datatype cloud_error = RequestError

text \<open>\<open>store.put\<close>: the record with the same key is replaced, a new key is inserted in key order.\<close>

fun store_put :: "FeedPost \<Rightarrow> FeedPost list \<Rightarrow> FeedPost list" where
  "store_put t [] = [t]"
| "store_put t (x # xs) =
     (if id' t = id' x then t # xs
      else if id' t < id' x then t # x # xs
      else x # store_put t xs)"

text \<open>\<open>Array.prototype.findIndex\<close>; \<open>None\<close> stands for \<open>-1\<close>.\<close>

fun findIndex :: "('a \<Rightarrow> bool) \<Rightarrow> 'a list \<Rightarrow> nat option" where
  "findIndex P [] = None"
| "findIndex P (x # xs) = (if P x then Some 0 else map_option Suc (findIndex P xs))"

definition new_array :: "FeedPost list \<Rightarrow> cloud_state \<Rightarrow> nat \<times> cloud_state" where
  "new_array xs s =
     (nextArray s, s\<lparr>arrays := (arrays s)(nextArray s := xs), nextArray := nextArray s + 1\<rparr>)"

definition saveTrackToCloud :: "idb_outcome \<Rightarrow> FeedPost \<Rightarrow> cloud_state \<Rightarrow> cloud_error + cloud_state" where
  "saveTrackToCloud db track s =
     (case db of
        IdbOk \<Rightarrow> Inr (s\<lparr>tracksStore := store_put track (tracksStore s)\<rparr>)
      | IdbRequestFails \<Rightarrow> Inl RequestError
      | IdbUnavailable \<Rightarrow>
          (let m = arrays s (memoryStore s)
           in case findIndex (\<lambda>t. id' t = id' track) m of
                Some idx \<Rightarrow> Inr (s\<lparr>arrays := (arrays s)(memoryStore s := m[idx := track])\<rparr>)
              | None \<Rightarrow> Inr (s\<lparr>arrays := (arrays s)(memoryStore s := m @ [track])\<rparr>)))"

text \<open>
  The comparator \<open>new Date(b.date).getTime() - new Date(a.date).getTime()\<close>. Parsing a
  date string is the platform's; \<open>getTime\<close> is a parameter, with \<open>None\<close> for an
  unparseable date (\<open>NaN\<close>). A \<open>NaN\<close> difference is treated as \<open>+0\<close> by \<open>sort\<close>.
\<close>

definition dateCompare :: "(string \<Rightarrow> int option) \<Rightarrow> FeedPost \<Rightarrow> FeedPost \<Rightarrow> int" where
  "dateCompare getTime a b =
     (case (getTime (date b), getTime (date a)) of
        (Some tb, Some ta) \<Rightarrow> tb - ta
      | _ \<Rightarrow> 0)"

text \<open>
  \<open>Array.prototype.sort\<close>. The language fixes the result only for a consistent
  comparator (the sorted, stable arrangement); otherwise the order is left to the
  platform. The model follows the algorithm of V8 for arrays of fewer than 64 elements,
  which is one run of its merge sort: the longest initial run is found and, when it
  descends strictly, reversed; every later element is then put in place by binary
  insertion. For a consistent comparator this is the stable sort at every length.
\<close>

function binary_position :: "('a \<Rightarrow> 'a \<Rightarrow> int) \<Rightarrow> 'a \<Rightarrow> 'a list \<Rightarrow> nat \<Rightarrow> nat \<Rightarrow> nat" where
  "binary_position c pivot work left right =
     (if left < right then
        (let mid = left + (right - left) div 2
         in if c pivot (work ! mid) < 0
            then binary_position c pivot work left mid
            else binary_position c pivot work (mid + 1) right)
      else left)"
  by pat_completeness auto
termination
  by (relation "measure (\<lambda>(c, pivot, work, left, right). right - left)") auto

declare binary_position.simps [simp del]

text \<open>\<open>binary_position\<close> is called on the sorted prefix only, so \<open>mid\<close> is a valid index.\<close>

definition binary_insert :: "('a \<Rightarrow> 'a \<Rightarrow> int) \<Rightarrow> 'a \<Rightarrow> 'a list \<Rightarrow> 'a list" where
  "binary_insert c pivot work =
     (let left = binary_position c pivot work 0 (length work)
      in take left work @ pivot # drop left work)"

fun binary_insertion_sort :: "('a \<Rightarrow> 'a \<Rightarrow> int) \<Rightarrow> 'a list \<Rightarrow> 'a list \<Rightarrow> 'a list" where
  "binary_insertion_sort c work [] = work"
| "binary_insertion_sort c work (pivot # rest) =
     binary_insertion_sort c (binary_insert c pivot work) rest"

fun extend_run :: "('a \<Rightarrow> 'a \<Rightarrow> int) \<Rightarrow> bool \<Rightarrow> 'a \<Rightarrow> 'a list \<Rightarrow> nat" where
  "extend_run c isDescending previous [] = 0"
| "extend_run c isDescending previous (current # rest) =
     (let order = c current previous
      in if (if isDescending then order \<ge> 0 else order < 0) then 0
         else Suc (extend_run c isDescending current rest))"

fun count_and_make_run :: "('a \<Rightarrow> 'a \<Rightarrow> int) \<Rightarrow> 'a list \<Rightarrow> 'a list \<times> 'a list" where
  "count_and_make_run c [] = ([], [])"
| "count_and_make_run c [x] = ([x], [])"
| "count_and_make_run c (x0 # x1 # rest) =
     (let isDescending = c x1 x0 < 0;
          runLength = 2 + extend_run c isDescending x1 rest;
          run = take runLength (x0 # x1 # rest)
      in (if isDescending then rev run else run, drop runLength (x0 # x1 # rest)))"

definition array_sort :: "('a \<Rightarrow> 'a \<Rightarrow> int) \<Rightarrow> 'a list \<Rightarrow> 'a list" where
  "array_sort c xs =
     (if length xs < 2 then xs
      else (let (run, rest) = count_and_make_run c xs in binary_insertion_sort c run rest))"

definition sort_in_place :: "(FeedPost \<Rightarrow> FeedPost \<Rightarrow> int) \<Rightarrow> nat \<Rightarrow> cloud_state \<Rightarrow> cloud_state" where
  "sort_in_place c r s = s\<lparr>arrays := (arrays s)(r := array_sort c (arrays s r))\<rparr>"

definition getCloudTracks ::
  "(string \<Rightarrow> int option) \<Rightarrow> idb_outcome \<Rightarrow> cloud_state \<Rightarrow> cloud_error + (nat \<times> cloud_state)" where
  "getCloudTracks getTime db s =
     (case db of
        IdbOk \<Rightarrow>
          (let (res, s1) = new_array (tracksStore s) s
           in Inr (res, sort_in_place (dateCompare getTime) res s1))
      | IdbRequestFails \<Rightarrow> Inl RequestError
      | IdbUnavailable \<Rightarrow>
          (let (copy, s1) = new_array (arrays s (memoryStore s)) s
           in Inr (copy, sort_in_place (dateCompare getTime) copy s1)))"

text \<open>
  The states the module can be in: any sequence of calls from the empty stores. Loading
  the page again evaluates the module anew (\<open>let memoryStore = []\<close>); the database stays.
\<close>

datatype cloud_call = SaveCall idb_outcome FeedPost | GetCall idb_outcome | PageReload

fun after_call :: "(string \<Rightarrow> int option) \<Rightarrow> cloud_call \<Rightarrow> cloud_state \<Rightarrow> cloud_state" where
  "after_call getTime (SaveCall db track) s =
     (case saveTrackToCloud db track s of Inl e \<Rightarrow> s | Inr s1 \<Rightarrow> s1)"
| "after_call getTime (GetCall db) s =
     (case getCloudTracks getTime db s of Inl e \<Rightarrow> s | Inr (r, s1) \<Rightarrow> s1)"
| "after_call getTime PageReload s =
     s\<lparr>arrays := (\<lambda>r. []), nextArray := 1, memoryStore := 0\<rparr>"

definition after_calls :: "(string \<Rightarrow> int option) \<Rightarrow> cloud_call list \<Rightarrow> cloud_state" where
  "after_calls getTime calls = foldl (\<lambda>s c. after_call getTime c s) initial_cloud calls"

text \<open>The array a caller of \<open>getCloudTracks\<close> receives, when the call completes.\<close>

definition returned_tracks ::
  "(string \<Rightarrow> int option) \<Rightarrow> idb_outcome \<Rightarrow> cloud_state \<Rightarrow> FeedPost list option" where
  "returned_tracks getTime db s =
     (case getCloudTracks getTime db s of
        Inl e \<Rightarrow> None
      | Inr (res, s1) \<Rightarrow> Some (arrays s1 res))"

definition stored_tracks :: "idb_outcome \<Rightarrow> cloud_state \<Rightarrow> FeedPost list" where
  "stored_tracks db s = (if db = IdbUnavailable then arrays s (memoryStore s) else tracksStore s)"

definition not_older :: "(string \<Rightarrow> int option) \<Rightarrow> FeedPost \<Rightarrow> FeedPost \<Rightarrow> bool" where
  "not_older getTime a b =
     (case (getTime (date a), getTime (date b)) of
        (Some ta, Some tb) \<Rightarrow> tb \<le> ta
      | _ \<Rightarrow> False)"

definition newest_first :: "(string \<Rightarrow> int option) \<Rightarrow> FeedPost list \<Rightarrow> bool" where
  "newest_first getTime xs = sorted_wrt (not_older getTime) xs"

definition dates_valid :: "(string \<Rightarrow> int option) \<Rightarrow> FeedPost list \<Rightarrow> bool" where
  "dates_valid getTime xs = list_all (\<lambda>t. getTime (date t) \<noteq> None) xs"

definition cloud_ok :: "cloud_state \<Rightarrow> bool" where
  "cloud_ok s \<longleftrightarrow>
     memoryStore s < nextArray s \<and>
     distinct (map id' (arrays s (memoryStore s))) \<and>
     sorted_wrt (<) (map id' (tracksStore s))"

text \<open>Concrete dates and tracks for evaluation.\<close>

definition example_getTime :: "string \<Rightarrow> int option" where
  "example_getTime d =
     (if d = ''2025-01-01T00:00:00.000Z'' then Some 1735689600000
      else if d = ''2025-01-02T00:00:00.000Z'' then Some 1735776000000
      else None)"

definition track_a :: FeedPost where
  "track_a = \<lparr>id' = ''a'', name = ''Edited_a.wav'', date = ''2025-01-01T00:00:00.000Z'',
     tags = [''Edited'', ''CloudSave''], blob = None, duration = 4\<rparr>"

definition track_b :: FeedPost where
  "track_b = \<lparr>id' = ''b'', name = ''Edited_b.wav'', date = ''2025-01-02T00:00:00.000Z'',
     tags = [''Edited'', ''CloudSave''], blob = None, duration = 2\<rparr>"

definition track_a2 :: FeedPost where
  "track_a2 = \<lparr>id' = ''a'', name = ''Edited_a2.wav'', date = ''2025-01-02T00:00:00.000Z'',
     tags = [''Edited'', ''CloudSave''], blob = None, duration = 3\<rparr>"

definition track_x :: FeedPost where
  "track_x = \<lparr>id' = ''x'', name = ''Edited_x.wav'', date = ''yesterday'',
     tags = [''Edited'', ''CloudSave''], blob = None, duration = 1\<rparr>"

section \<open>Rendering engine\<close>

text \<open>
  The engine (\<open>renderAudioFromBuffer\<close> and \<open>analyzeAudioBuffer\<close> of
  \<open>services/audioUtils\<close>) is not among the sources; the view only calls it. What follows
  is written from the specification. Samples are reals: no rounding is modelled.
\<close>

text \<open>
  Modelled from the spec: the buffer model of section 3 (the engine's buffer type is
  missing): a sample rate, one sample sequence per channel, and the frame count.
\<close>

record AudioBuffer =
  sampleRate :: int
  channels :: "real list list"
  frameCount :: nat

text \<open>
  Modelled from the spec: structural validity (sections 3 and 6): a positive sample rate,
  and every channel as long as the frame count.
\<close>

definition valid_buffer :: "AudioBuffer \<Rightarrow> bool" where
  "valid_buffer b \<longleftrightarrow> 0 < sampleRate b \<and> list_all (\<lambda>c. length c = frameCount b) (channels b)"

text \<open>Modelled from the spec: \<open>duration = frameCount / sampleRate\<close> (section 3).\<close>

definition duration_of :: "AudioBuffer \<Rightarrow> real" where
  "duration_of b = real (frameCount b) / real_of_int (sampleRate b)"

text \<open>
  Modelled from the spec: clamping of a parameter set to the declared domains (sections 3
  and 4.2); a parameter without numeric bounds passes unchanged.
\<close>

definition clamp :: "real \<Rightarrow> real \<Rightarrow> real \<Rightarrow> real" where
  "clamp lo hi v = max lo (min hi v)"

definition clampParams :: "AudioProcessParams \<Rightarrow> AudioProcessParams" where
  "clampParams p =
     (\<lambda>k. case declared_domain k of None \<Rightarrow> p k | Some (lo, hi) \<Rightarrow> clamp lo hi (p k))"

text \<open>Modelled from the spec: the effect stages and their fixed order (section 4.2).\<close>

datatype stage =
    NoiseReduction | DeEssing | PitchTimeStretch | Equalizer | DriveSaturation | Vibrato
  | RingModulation | BackingVocalMix | DelayLine | ReverbTrack | StereoWidening
  | MasterReverbSend | MasterGain

definition stage_order :: "stage list" where
  "stage_order =
     [NoiseReduction, DeEssing, PitchTimeStretch, Equalizer, DriveSaturation, Vibrato,
      RingModulation, BackingVocalMix, DelayLine, ReverbTrack, StereoWidening,
      MasterReverbSend, MasterGain]"

text \<open>
  Modelled from the spec: the failures of a render (section 7). A structurally invalid
  buffer is a \<open>ValidationError\<close>, rejected before any stage runs (section 6 calls the
  same failure a \<open>RenderError\<close>); a stage that fails gives a \<open>RenderError\<close>.
\<close>

datatype engine_error = ValidationError | RenderError stage

type_synonym block = "real list list"

text \<open>
  Modelled from the spec: what the specification leaves to the implementer is a parameter
  of the model: the block length, the state the stages carry across blocks (delay lines,
  reverb tails, oscillator phase) as it is at the start of a call, and the signal
  processing of each stage on one block, which may fail.
\<close>

record 'st engine =
  blockLength :: nat
  initialState :: 'st
  runStage :: "stage \<Rightarrow> AudioProcessParams \<Rightarrow> 'st \<Rightarrow> block \<Rightarrow> (block \<times> 'st) option"

text \<open>
  Modelled from the spec: one block goes through the stages in their order, each stage
  receiving the state the previous one left; the first failure aborts (section 7).
\<close>

fun run_stages ::
  "'st engine \<Rightarrow> AudioProcessParams \<Rightarrow> stage list \<Rightarrow> 'st \<Rightarrow> block \<Rightarrow> engine_error + (block \<times> 'st)" where
  "run_stages eng q [] st blk = Inr (blk, st)"
| "run_stages eng q (g # gs) st blk =
     (case runStage eng g q st blk of
        None \<Rightarrow> Inl (RenderError g)
      | Some (blk1, st1) \<Rightarrow> run_stages eng q gs st1 blk1)"

text \<open>
  Modelled from the spec: the buffer is cut into blocks of the block length, the last one
  possibly shorter (section 4.2).
\<close>

definition block_count :: "nat \<Rightarrow> nat \<Rightarrow> nat" where
  "block_count len n = (n + len - 1) div len"

definition input_block :: "nat \<Rightarrow> AudioBuffer \<Rightarrow> nat \<Rightarrow> block" where
  "input_block len b k = map (\<lambda>c. take len (drop (k * len) c)) (channels b)"

definition append_block :: "block \<Rightarrow> block \<Rightarrow> block" where
  "append_block out blk = map (\<lambda>(c, d). c @ d) (zip out blk)"

text \<open>
  Modelled from the spec: blocks are processed strictly in sequence, the stage state
  threaded from one to the next, and progress is reported after each block (sections 4.2
  and 5). The specification does not say which value is reported; the model reports the
  percentage of blocks done, rounded down. \<open>onProgress\<close> acts on the caller's state.
\<close>

fun render_blocks ::
  "'st engine \<Rightarrow> AudioProcessParams \<Rightarrow> AudioBuffer \<Rightarrow> (nat \<Rightarrow> 'cb \<Rightarrow> 'cb) \<Rightarrow> nat \<Rightarrow> nat list \<Rightarrow>
     'st \<Rightarrow> block \<Rightarrow> 'cb \<Rightarrow> engine_error + (block \<times> 'cb)" where
  "render_blocks eng q b onProgress nblocks [] st out cb = Inr (out, cb)"
| "render_blocks eng q b onProgress nblocks (k # ks) st out cb =
     (case run_stages eng q stage_order st (input_block (blockLength eng) b k) of
        Inl e \<Rightarrow> Inl e
      | Inr (blk, st1) \<Rightarrow>
          render_blocks eng q b onProgress nblocks ks st1 (append_block out blk)
            (onProgress ((100 * (k + 1)) div nblocks) cb))"

text \<open>
  Modelled from the spec: the render entry point (sections 4.2, 6 and 7): the buffer is
  validated, the parameters are clamped once, a buffer of zero frames passes through
  unchanged, and otherwise the blocks are processed from the initial stage state.
\<close>

definition render ::
  "'st engine \<Rightarrow> AudioBuffer \<Rightarrow> AudioProcessParams \<Rightarrow> (nat \<Rightarrow> 'cb \<Rightarrow> 'cb) \<Rightarrow> 'cb \<Rightarrow>
     engine_error + (AudioBuffer \<times> 'cb)" where
  "render eng b p onProgress cb =
     (if \<not> valid_buffer b then Inl ValidationError
      else
        (let q = clampParams p
         in if frameCount b = 0 then Inr (b, onProgress 100 cb)
            else
              (let nblocks = block_count (blockLength eng) (frameCount b)
               in case render_blocks eng q b onProgress nblocks [0..<nblocks] (initialState eng)
                         (map (\<lambda>c. []) (channels b)) cb of
                    Inl e \<Rightarrow> Inl e
                  | Inr (out, cb1) \<Rightarrow>
                      Inr (b\<lparr>channels := out,
                             frameCount := (case out of [] \<Rightarrow> 0 | c # cs \<Rightarrow> length c)\<rparr>,
                           cb1))))"

text \<open>The callback that records every value it is given, in order.\<close>

definition record_progress :: "nat \<Rightarrow> nat list \<Rightarrow> nat list" where
  "record_progress v tr = tr @ [v]"

text \<open>The same engine with stages that fail when handed a parameter outside its domain.\<close>

definition strict_stages :: "'st engine \<Rightarrow> 'st engine" where
  "strict_stages eng =
     eng\<lparr>runStage := (\<lambda>g q st blk. if in_domain q then runStage eng g q st blk else None)\<rparr>"

text \<open>
  Modelled from the spec: the pitch/time-stretch stage (section 4.2; the stage is
  missing): the output has \<open>round(frameCount \<times> stretch)\<close> frames, \<open>round\<close> rounding
  halves up as \<open>Math.round\<close> does, at the same sample rate. How an output sample is
  computed (phase vocoder, granular resampling) is left open by the specification and is
  the parameter \<open>resample\<close>, which gives sample \<open>i\<close> of the output from the input channel.
\<close>

definition stretch_channel ::
  "(real \<Rightarrow> real \<Rightarrow> real list \<Rightarrow> nat \<Rightarrow> real) \<Rightarrow> real \<Rightarrow> real \<Rightarrow> nat \<Rightarrow> real list \<Rightarrow> real list" where
  "stretch_channel resample pitch stretch n c = map (resample pitch stretch c) [0..<n]"

definition pitchTimeStretch ::
  "(real \<Rightarrow> real \<Rightarrow> real list \<Rightarrow> nat \<Rightarrow> real) \<Rightarrow> real \<Rightarrow> real \<Rightarrow> AudioBuffer \<Rightarrow> AudioBuffer" where
  "pitchTimeStretch resample pitch stretch b =
     (let n = nat (round (real (frameCount b) * stretch))
      in b\<lparr>channels := map (stretch_channel resample pitch stretch n) (channels b),
           frameCount := n\<rparr>)"

text \<open>
  Modelled from the spec: the stage inside the pipeline. An engine whose block length
  \<open>len\<close> is meant to cover the whole buffer and whose pitch/time-stretch stage stretches
  the block it is given, with the pitch and stretch of the parameter set it is handed;
  the other stages are at their neutral setting and pass the block on (section 4.2).
\<close>

definition block_frames :: "block \<Rightarrow> nat" where
  "block_frames blk = (case blk of [] \<Rightarrow> 0 | c # cs \<Rightarrow> length c)"

definition stretch_engine ::
  "(real \<Rightarrow> real \<Rightarrow> real list \<Rightarrow> nat \<Rightarrow> real) \<Rightarrow> nat \<Rightarrow> unit engine" where
  "stretch_engine resample len =
     \<lparr>blockLength = len, initialState = (),
      runStage = (\<lambda>g q st blk.
        if g = PitchTimeStretch
        then Some (map (stretch_channel resample (q Pitch) (q Stretch)
                          (nat (round (real (block_frames blk) * q Stretch)))) blk, st)
        else Some (blk, st))\<rparr>"

text \<open>A value is within a relative tolerance of the expected one.\<close>

definition within_tolerance :: "real \<Rightarrow> real \<Rightarrow> real \<Rightarrow> bool" where
  "within_tolerance tol actual expected \<longleftrightarrow> \<bar>actual - expected\<bar> \<le> tol * \<bar>expected\<bar>"

text \<open>Concrete engines and buffers for evaluation.\<close>

definition hold_resample :: "real \<Rightarrow> real \<Rightarrow> real list \<Rightarrow> nat \<Rightarrow> real" where
  "hold_resample pitch stretch c i =
     (if c = [] then 0 else c ! min (length c - 1) (nat \<lfloor>real i / stretch\<rfloor>))"

definition four_second_buffer :: AudioBuffer where
  "four_second_buffer =
     \<lparr>sampleRate = 44100, channels = [replicate 176400 0.5], frameCount = 176400\<rparr>"

definition passthrough_engine :: "unit engine" where
  "passthrough_engine =
     \<lparr>blockLength = 2, initialState = (), runStage = (\<lambda>g q st blk. Some (blk, st))\<rparr>"

definition five_frame_buffer :: AudioBuffer where
  "five_frame_buffer =
     \<lparr>sampleRate = 44100, channels = [[0.1, 0.2, 0.3, 0.4, 0.5]], frameCount = 5\<rparr>"

section \<open>The view with object identity (src/views/Enhancer.tsx)\<close>

text \<open>
  \<open>handleAutoEnhance\<close>, \<open>handlePreview\<close> and \<open>handleProcess\<close>, with parameter objects held
  in a store under references, so that building a new object and changing an existing one
  differ. \<open>paramsRef\<close>, \<open>historyRefs\<close> and \<open>historyPos\<close> are the state \<open>params\<close>,
  \<open>history\<close> and \<open>historyIndex\<close>; a processed blob, and the blob behind the processed
  URL, are represented by the rendered buffer. The flags \<open>isAnalyzing\<close>,
  \<open>isPreviewing\<close>, \<open>isProcessing\<close> and \<open>compareMode\<close> play no part and are left out.
\<close>

record view_state =
  objects :: "nat \<Rightarrow> AudioProcessParams"
  nextObject :: nat
  paramsRef :: nat
  historyRefs :: "nat list"
  historyPos :: nat
  sourceBuffer :: "AudioBuffer option"
  progress :: nat
  processedBlob :: "AudioBuffer option"
  processedUrl :: "AudioBuffer option"

text \<open>
  What \<open>analyzeAudioBuffer\<close> did: it threw (the \<open>catch\<close> logs and nothing changes), or
  it returned a suggestion, a partial parameter set.
\<close>

datatype analysis_outcome = AnalysisThrows | Suggests "param_key \<Rightarrow> real option"

text \<open>\<open>{ ...params, ...suggestions }\<close>: a key of the suggestion overrides, any other key is kept.\<close>

definition spread_merge :: "AudioProcessParams \<Rightarrow> (param_key \<Rightarrow> real option) \<Rightarrow> AudioProcessParams" where
  "spread_merge p suggestions = (\<lambda>k. case suggestions k of None \<Rightarrow> p k | Some x \<Rightarrow> x)"

text \<open>An object literal builds a new object under a fresh reference.\<close>

definition new_object :: "AudioProcessParams \<Rightarrow> view_state \<Rightarrow> nat \<times> view_state" where
  "new_object p v =
     (nextObject v, v\<lparr>objects := (objects v)(nextObject v := p), nextObject := nextObject v + 1\<rparr>)"

definition addToHistoryRef :: "nat \<Rightarrow> view_state \<Rightarrow> view_state" where
  "addToHistoryRef newParams v =
     (let newHistory = take (historyPos v + 1) (historyRefs v) @ [newParams]
      in v\<lparr>historyRefs := newHistory, historyPos := length newHistory - 1\<rparr>)"

definition handleAutoEnhance :: "analysis_outcome \<Rightarrow> view_state \<Rightarrow> view_state" where
  "handleAutoEnhance analysis v =
     (case sourceBuffer v of
        None \<Rightarrow> v
      | Some buf \<Rightarrow>
          (case analysis of
             AnalysisThrows \<Rightarrow> v
           | Suggests suggestions \<Rightarrow>
               (let (newParams, v1) =
                      new_object (spread_merge (objects v (paramsRef v)) suggestions) v
                in addToHistoryRef newParams (v1\<lparr>paramsRef := newParams\<rparr>))))"

definition setProgress :: "nat \<Rightarrow> view_state \<Rightarrow> view_state" where
  "setProgress p v = v\<lparr>progress := p\<rparr>"

text \<open>
  Modelled from the spec: the entry point \<open>renderAudioFromBuffer\<close> of the engine as the
  view calls it (the function is missing). It is handed the caller's parameter object.
  The parameter set is passed by value and clamped once at entry (sections 3 and 4.2):
  the engine builds an object of its own holding the clamped set, and renders from that
  object. The caller's state is reached only through \<open>onProgress\<close>.
\<close>

definition renderAudioFromBuffer ::
  "'st engine \<Rightarrow> AudioBuffer \<Rightarrow> nat \<Rightarrow> (nat \<Rightarrow> view_state \<Rightarrow> view_state) \<Rightarrow> view_state \<Rightarrow>
     engine_error + (AudioBuffer \<times> view_state)" where
  "renderAudioFromBuffer eng buffer paramsObject onProgress v =
     (let (own, v1) = new_object (clampParams (objects v paramsObject)) v
      in render eng buffer (objects v1 own) onProgress v1)"

text \<open>
  The two render calls of the view. Each hands the engine the object \<open>params\<close> refers
  to, the same object the history holds. \<open>handlePreview\<close> passes a callback that does
  nothing, \<open>handleProcess\<close> passes \<open>setProgress\<close>.
\<close>

definition handlePreview :: "'st engine \<Rightarrow> view_state \<Rightarrow> view_state" where
  "handlePreview eng v =
     (case sourceBuffer v of
        None \<Rightarrow> v
      | Some buf \<Rightarrow>
          (case renderAudioFromBuffer eng buf (paramsRef v) (\<lambda>p u. u) v of
             Inl e \<Rightarrow> v
           | Inr (outBlob, v1) \<Rightarrow> v1\<lparr>processedUrl := Some outBlob\<rparr>))"

definition handleProcess :: "'st engine \<Rightarrow> view_state \<Rightarrow> view_state" where
  "handleProcess eng v =
     (case sourceBuffer v of
        None \<Rightarrow> v
      | Some buf \<Rightarrow>
          (case renderAudioFromBuffer eng buf (paramsRef v) setProgress (setProgress 0 v) of
             Inl e \<Rightarrow> setProgress 0 v
           | Inr (outBlob, v1) \<Rightarrow>
               setProgress 0 (v1\<lparr>processedBlob := Some outBlob, processedUrl := Some outBlob\<rparr>)))"

text \<open>A view whose current parameter set has a pitch outside its domain.\<close>

definition example_view :: view_state where
  "example_view =
     \<lparr>objects = (\<lambda>r. INITIAL_PARAMS(Pitch := 40)), nextObject = 1, paramsRef = 0,
      historyRefs = [0], historyPos = 0, sourceBuffer = Some five_frame_buffer, progress = 0,
      processedBlob = None, processedUrl = None\<rparr>"

section \<open>Results about the parameter model\<close>

lemma in_domain_iff: "in_domain p \<longleftrightarrow> (\<forall>k. in_range k (p k))"
proof
  assume "in_domain p"
  then show "\<forall>k. in_range k (p k)"
  proof (intro allI)
    fix k
    assume a: "in_domain p"
    show "in_range k (p k)" using a by (cases k) (simp_all add: in_domain_def all_keys_def)
  qed
next
  assume "\<forall>k. in_range k (p k)"
  then show "in_domain p" by (simp add: in_domain_def list_all_iff)
qed

lemma in_domain_upd: "in_domain p \<Longrightarrow> in_range k v \<Longrightarrow> in_domain (p(k := v))"
  by (simp add: in_domain_iff)

lemma in_domain_INITIAL: "in_domain INITIAL_PARAMS"
  by (simp add: in_domain_def all_keys_def in_range_def)

lemma Let_chain:
  "R x \<Longrightarrow> (\<And>y. R y \<Longrightarrow> \<exists>q. f y = g q \<and> R q) \<Longrightarrow> \<exists>q. Let x f = g q \<and> R q"
  by simp

lemma in_domain_if:
  "in_domain y \<Longrightarrow> (c \<Longrightarrow> in_domain z) \<Longrightarrow> in_domain (if c then z else y)"
  by simp

lemma applyPreset_domain:
  assumes "in_domain (params s)"
  shows "\<exists>q. applyPreset nm s = addToHistory q (s\<lparr>params := q\<rparr>) \<and> in_domain q"
  unfolding applyPreset_def
  apply (rule Let_chain[where R = in_domain])
   apply (intro in_domain_upd assms; simp add: in_range_def)
  apply (rule Let_chain[where R = in_domain],
         (rule in_domain_if, assumption, intro in_domain_upd; simp add: in_range_def))+
  apply blast
  done

lemma applyPreset_shift:
  "\<exists>q. applyPreset nm s = addToHistory q (s\<lparr>params := q\<rparr>) \<and> q Shift = params s Shift"
  unfolding applyPreset_def
  apply (rule Let_chain[where R = "\<lambda>q. q Shift = params s Shift"], simp)+
  apply blast
  done

lemma addToHistory_fields:
  "params (addToHistory q s) = params s"
  "history (addToHistory q s) = take (historyIndex s + 1) (history s) @ [q]"
  "historyIndex (addToHistory q s) = min (historyIndex s + 1) (length (history s))"
  by (simp_all add: addToHistory_def Let_def)

lemma list_all_take: "list_all P xs \<Longrightarrow> list_all P (take n xs)"
  by (auto simp: list_all_iff dest: in_set_takeD)

lemma addToHistory_ok:
  assumes "list_all P (history s)" "P q"
  shows "history_ok P (addToHistory q (s\<lparr>params := q\<rparr>))"
  using assms by (simp add: history_ok_def addToHistory_fields list_all_take)

lemma updateParam_ok:
  assumes "history_ok P s" "P ((params s)(k := v))"
  shows "history_ok P (updateParam k v c s)"
proof (cases c)
  case True
  have "updateParam k v c s =
          addToHistory ((params s)(k := v)) (s\<lparr>params := (params s)(k := v)\<rparr>)"
    using True by (simp add: updateParam_def Let_def)
  then show ?thesis using assms addToHistory_ok[of P s] by (simp add: history_ok_def)
next
  case False
  then show ?thesis using assms by (simp add: updateParam_def Let_def history_ok_def)
qed

lemma handleUndo_ok:
  assumes "history_ok P s"
  shows "\<exists>s'. handleUndo s = Inr s' \<and> history_ok P s'"
  using assms by (auto simp: handleUndo_def Let_def history_ok_def list_all_length)

lemma handleRedo_ok:
  assumes "history_ok P s"
  shows "history_ok P (handleRedo s)"
  using assms by (auto simp: handleRedo_def Let_def history_ok_def list_all_length)

lemma handleReset_ok:
  assumes "history_ok P s" "P INITIAL_PARAMS"
  shows "history_ok P (handleReset s)"
  using assms addToHistory_ok[of P s INITIAL_PARAMS]
  by (simp add: handleReset_def history_ok_def)

lemma apply_event_ok:
  assumes ok: "history_ok P s" and init: "P INITIAL_PARAMS"
    and slide: "\<And>sl v. e = SliderChange sl v \<or> e = SliderCommit sl v \<Longrightarrow>
                  P ((params s)(slider_key sl := v))"
    and preset: "\<And>nm. e = PresetClick nm \<Longrightarrow>
                  \<exists>q. applyPreset nm s = addToHistory q (s\<lparr>params := q\<rparr>) \<and> P q"
  shows "\<exists>s'. apply_event e s = Inr s' \<and> history_ok P s'"
proof (cases e)
  case (SliderChange sl v)
  then show ?thesis using updateParam_ok[OF ok] slide by simp
next
  case (SliderCommit sl v)
  then show ?thesis using updateParam_ok[OF ok] slide by simp
next
  case (PresetClick nm)
  then obtain q where "applyPreset nm s = addToHistory q (s\<lparr>params := q\<rparr>)" "P q"
    using preset by blast
  then show ?thesis using PresetClick ok addToHistory_ok[of P s q]
    by (simp add: history_ok_def)
next
  case UndoClick
  then show ?thesis using handleUndo_ok[OF ok] by simp
next
  case RedoClick
  then show ?thesis using handleRedo_ok[OF ok] by simp
next
  case ResetClick
  then show ?thesis using handleReset_ok[OF ok init] by simp
qed

lemma slider_key_not_Shift: "slider_key sl \<noteq> Shift"
  by (cases sl) simp_all

lemma run_events_shift:
  assumes "history_ok (\<lambda>p. p Shift = 0) s"
  shows "\<exists>s'. run_events evs s = Inr s' \<and> history_ok (\<lambda>p. p Shift = 0) s'"
  using assms
proof (induction evs arbitrary: s)
  case Nil
  then show ?case by simp
next
  case (Cons e evs)
  have "\<exists>s1. apply_event e s = Inr s1 \<and> history_ok (\<lambda>p. p Shift = 0) s1"
  proof (rule apply_event_ok[OF Cons.prems])
    show "INITIAL_PARAMS Shift = 0" by simp
  next
    fix sl v
    show "((params s)(slider_key sl := v)) Shift = 0"
      using Cons.prems slider_key_not_Shift[of sl] by (simp add: history_ok_def)
  next
    fix nm
    show "\<exists>q. applyPreset nm s = addToHistory q (s\<lparr>params := q\<rparr>) \<and> q Shift = 0"
      using applyPreset_shift[of nm s] Cons.prems by (simp add: history_ok_def)
  qed
  then obtain s1 where s1: "apply_event e s = Inr s1" "history_ok (\<lambda>p. p Shift = 0) s1"
    by blast
  from Cons.IH[OF s1(2)] s1(1) show ?case by simp
qed

lemma slider_range: "slider_min sl \<le> v \<Longrightarrow> v \<le> slider_max sl \<Longrightarrow> in_range (slider_key sl) v"
  by (cases sl) (simp_all add: in_range_def)

lemma run_events_domain:
  assumes "history_ok in_domain s" "list_all slider_event_ok evs"
  shows "\<exists>s'. run_events evs s = Inr s' \<and> history_ok in_domain s'"
  using assms
proof (induction evs arbitrary: s)
  case Nil
  then show ?case by simp
next
  case (Cons e evs)
  have "\<exists>s1. apply_event e s = Inr s1 \<and> history_ok in_domain s1"
  proof (rule apply_event_ok[OF Cons.prems(1)])
    show "in_domain INITIAL_PARAMS" by (rule in_domain_INITIAL)
  next
    fix sl v
    assume "e = SliderChange sl v \<or> e = SliderCommit sl v"
    then have "slider_min sl \<le> v \<and> v \<le> slider_max sl"
      using Cons.prems(2) by auto
    then show "in_domain ((params s)(slider_key sl := v))"
      using Cons.prems(1) by (simp add: in_domain_upd slider_range history_ok_def)
  next
    fix nm
    show "\<exists>q. applyPreset nm s = addToHistory q (s\<lparr>params := q\<rparr>) \<and> in_domain q"
      using applyPreset_domain[of s nm] Cons.prems(1) by (simp add: history_ok_def)
  qed
  then obtain s1 where s1: "apply_event e s = Inr s1" "history_ok in_domain s1"
    by blast
  from Cons.IH[OF s1(2)] Cons.prems(2) s1(1) show ?case by simp
qed

lemma initial_ok: "P INITIAL_PARAMS \<Longrightarrow> history_ok P initial_state"
  by (simp add: history_ok_def initial_state_def)

text \<open>
  Claim C1. The \<open>shift\<close> field is never populated: it is 0 in \<open>INITIAL_PARAMS\<close>, no slider
  passes the key \<open>shift\<close> to \<open>updateParam\<close>, \<open>applyPreset\<close> leaves it as it was for every
  preset name, and so after any sequence of slider moves, slider commits, preset clicks,
  undo, redo and reset the handlers have not failed and the current parameter set and
  every set in the history have \<open>shift = 0\<close>.
\<close>

theorem shift_never_populated:
  "INITIAL_PARAMS Shift = 0 \<and> slider_key sl \<noteq> Shift \<and>
   params (applyPreset nm s) Shift = params s Shift \<and>
   (\<exists>s'. run_events evs initial_state = Inr s' \<and> params s' Shift = 0 \<and>
         list_all (\<lambda>p. p Shift = 0) (history s'))"
proof -
  have a: "params (applyPreset nm s) Shift = params s Shift"
    using applyPreset_shift[of nm s] by (auto simp: addToHistory_fields)
  have "history_ok (\<lambda>p. p Shift = 0) initial_state"
    by (rule initial_ok) simp
  from run_events_shift[OF this, of evs] a slider_key_not_Shift[of sl]
  show ?thesis by (auto simp: history_ok_def)
qed

text \<open>
  Claim C2. Every parameter value the view can produce lies in the declared domain of
  its parameter: the bounds of each slider are the declared domain of its key,
  \<open>INITIAL_PARAMS\<close> is in domain, and after any sequence of events whose slider values lie
  between the slider's \<open>min\<close> and \<open>max\<close> (preset clicks with any name included) the
  current parameter set and every set in the history are in domain.
\<close>

theorem ui_params_in_domain:
  assumes "list_all slider_event_ok evs"
  shows "declared_domain (slider_key sl) = Some (slider_min sl, slider_max sl) \<and>
         in_domain INITIAL_PARAMS \<and>
         (\<exists>s'. run_events evs initial_state = Inr s' \<and> in_domain (params s') \<and>
               list_all in_domain (history s'))"
proof -
  have "declared_domain (slider_key sl) = Some (slider_min sl, slider_max sl)"
    by (cases sl) simp_all
  moreover have "history_ok in_domain initial_state"
    by (rule initial_ok) (rule in_domain_INITIAL)
  from run_events_domain[OF this assms]
  have "\<exists>s'. run_events evs initial_state = Inr s' \<and> in_domain (params s') \<and>
             list_all in_domain (history s')"
    by (auto simp: history_ok_def)
  ultimately show ?thesis using in_domain_INITIAL by blast
qed

theorem ui_params_in_domain_witness:
  "list_all slider_event_ok
     [SliderChange SpeedSlider 1.5, SliderCommit PitchSlider (-12), PresetClick ''Slowed'',
      UndoClick] \<and>
   (\<exists>s'. run_events
            [SliderChange SpeedSlider 1.5, SliderCommit PitchSlider (-12),
             PresetClick ''Slowed'', UndoClick] initial_state = Inr s' \<and>
         in_domain (params s') \<and> list_all in_domain (history s'))"
  using ui_params_in_domain
    [of "[SliderChange SpeedSlider 1.5, SliderCommit PitchSlider (-12),
          PresetClick ''Slowed'', UndoClick]"]
  by simp

section \<open>Results about undo and redo\<close>

lemma undo_redo_eq:
  assumes "0 < historyIndex s" "historyIndex s < length (history s)"
  shows "undo_redo s = Inr (s\<lparr>params := history s ! historyIndex s\<rparr>)"
proof -
  have u: "handleUndo s =
             Inr (s\<lparr>historyIndex := historyIndex s - 1,
                    params := history s ! (historyIndex s - 1)\<rparr>)"
    using assms by (simp add: handleUndo_def Let_def)
  have i: "historyIndex s - 1 + 1 = historyIndex s"
    using assms(1) by simp
  have "handleRedo (s\<lparr>historyIndex := historyIndex s - 1,
                        params := history s ! (historyIndex s - 1)\<rparr>) =
          s\<lparr>params := history s ! historyIndex s\<rparr>"
    using assms by (simp add: handleRedo_def Let_def i)
  with u show ?thesis by (simp add: undo_redo_def)
qed

lemma applyPreset_history:
  "history (applyPreset nm s) = take (historyIndex s + 1) (history s) @ [params (applyPreset nm s)]"
  "historyIndex (applyPreset nm s) = min (historyIndex s + 1) (length (history s))"
  using applyPreset_shift[of nm s] by (auto simp: addToHistory_fields)

lemma Child_pitch: "params (applyPreset ''Child'' s) Pitch = 6"
  by (simp add: applyPreset_def Let_def addToHistory_fields)

lemma pending_fields:
  "historyIndex pending_drag_state = 1"
  "length (history pending_drag_state) = 2"
  "params pending_drag_state Pitch = 5"
  "(history pending_drag_state ! 1) Pitch = 6"
  by (simp_all add: pending_drag_state_def updateParam_def Let_def applyPreset_history
        initial_state_def Child_pitch)

text \<open>
  Claim C10 as stated fails. After the preset "Baby" (pitch 6, committed) the pitch slider
  is dragged to 5 without commit; the cursor is at 1. Undo then redo puts the cursor back
  at 1 but sets the parameters to \<open>history[1]\<close>, whose pitch is 6: the parameters before
  the undo (pitch 5) are not restored.
\<close>

theorem undo_redo_counterexample:
  "0 < historyIndex pending_drag_state \<and>
   params pending_drag_state Pitch = 5 \<and>
   undo_redo pending_drag_state =
     Inr (pending_drag_state\<lparr>params := history pending_drag_state ! 1\<rparr>) \<and>
   (history pending_drag_state ! 1) Pitch = 6 \<and>
   undo_redo pending_drag_state \<noteq> Inr pending_drag_state"
proof -
  have e: "undo_redo pending_drag_state =
             Inr (pending_drag_state\<lparr>params := history pending_drag_state ! 1\<rparr>)"
    using undo_redo_eq[of pending_drag_state] by (simp add: pending_fields)
  have "undo_redo pending_drag_state \<noteq> Inr pending_drag_state"
  proof
    assume "undo_redo pending_drag_state = Inr pending_drag_state"
    with e have "pending_drag_state\<lparr>params := history pending_drag_state ! 1\<rparr> = pending_drag_state"
      by simp
    then have "params (pending_drag_state\<lparr>params := history pending_drag_state ! 1\<rparr>) Pitch
                 = params pending_drag_state Pitch"
      by simp
    then show False using pending_fields(3,4) by simp
  qed
  with e show ?thesis using pending_fields by simp
qed

text \<open>
  Claim C10, amended. For every state whose cursor is positive and inside the history,
  undo followed by redo leaves the history and the cursor as they were and sets the
  parameters to \<open>history[historyIndex]\<close>; the state is restored whole when the parameters
  were the committed ones. After every \<open>addToHistory\<close> the cursor is the last index and
  the entry there is the newly committed set.
\<close>

theorem undo_redo_restores_committed:
  assumes "0 < historyIndex s" "historyIndex s < length (history s)"
  shows "undo_redo s = Inr (s\<lparr>params := history s ! historyIndex s\<rparr>) \<and>
         (params s = history s ! historyIndex s \<longrightarrow> undo_redo s = Inr s) \<and>
         historyIndex (addToHistory p t) = length (history (addToHistory p t)) - 1 \<and>
         history (addToHistory p t) ! historyIndex (addToHistory p t) = p"
proof -
  have a: "undo_redo s = Inr (s\<lparr>params := history s ! historyIndex s\<rparr>)"
    by (rule undo_redo_eq[OF assms])
  have b: "params s = history s ! historyIndex s \<longrightarrow> undo_redo s = Inr s"
  proof
    assume "params s = history s ! historyIndex s"
    then have "s\<lparr>params := history s ! historyIndex s\<rparr> = s" by simp
    with a show "undo_redo s = Inr s" by simp
  qed
  have c: "historyIndex (addToHistory p t) = length (history (addToHistory p t)) - 1"
    by (simp add: addToHistory_fields)
  have "history (addToHistory p t) ! historyIndex (addToHistory p t) = p"
    by (simp add: addToHistory_fields nth_append min_def)
  with a b c show ?thesis by blast
qed

theorem undo_redo_restores_committed_witness:
  "0 < historyIndex \<lparr>params = INITIAL_PARAMS(Pitch := 3),
        history = [INITIAL_PARAMS, INITIAL_PARAMS(Pitch := 3)], historyIndex = 1\<rparr> \<and>
   historyIndex \<lparr>params = INITIAL_PARAMS(Pitch := 3),
        history = [INITIAL_PARAMS, INITIAL_PARAMS(Pitch := 3)], historyIndex = 1\<rparr>
     < length (history \<lparr>params = INITIAL_PARAMS(Pitch := 3),
        history = [INITIAL_PARAMS, INITIAL_PARAMS(Pitch := 3)], historyIndex = 1\<rparr>) \<and>
   undo_redo \<lparr>params = INITIAL_PARAMS(Pitch := 3),
        history = [INITIAL_PARAMS, INITIAL_PARAMS(Pitch := 3)], historyIndex = 1\<rparr>
     = Inr \<lparr>params = INITIAL_PARAMS(Pitch := 3),
        history = [INITIAL_PARAMS, INITIAL_PARAMS(Pitch := 3)], historyIndex = 1\<rparr>"
  using undo_redo_restores_committed
    [of "\<lparr>params = INITIAL_PARAMS(Pitch := 3),
        history = [INITIAL_PARAMS, INITIAL_PARAMS(Pitch := 3)], historyIndex = 1\<rparr>"]
  by simp

section \<open>Results about the library store\<close>

subsection \<open>Upsert\<close>

lemma set_store_put: "set (store_put t xs) \<subseteq> insert t (set xs)"
  by (induction xs) auto

lemma store_put_sorted:
  "sorted_wrt (<) (map id' xs) \<Longrightarrow> sorted_wrt (<) (map id' (store_put t xs))"
proof (induction xs)
  case Nil
  then show ?case by simp
next
  case (Cons x xs)
  then show ?case using set_store_put[of t xs] by (auto simp: less_le)
qed

lemma store_put_same:
  "sorted_wrt (<) (map id' xs) \<Longrightarrow> filter (\<lambda>u. id' u = id' t) (store_put t xs) = [t]"
  by (induction xs) (auto simp: filter_empty_conv)

lemma store_put_others:
  "filter (\<lambda>u. id' u \<noteq> id' t) (store_put t xs) = filter (\<lambda>u. id' u \<noteq> id' t) xs"
  by (induction xs) auto

lemma findIndex_None: "findIndex P xs = None \<longleftrightarrow> (\<forall>x\<in>set xs. \<not> P x)"
  by (induction xs) auto

lemma findIndex_Some:
  "findIndex P xs = Some i \<Longrightarrow> i < length xs \<and> P (xs ! i)"
  by (induction xs arbitrary: i) (auto split: if_splits)

lemma replace_same:
  "findIndex (\<lambda>u. id' u = k) xs = Some i \<Longrightarrow> id' t = k \<Longrightarrow> distinct (map id' xs) \<Longrightarrow>
     filter (\<lambda>u. id' u = k) (xs[i := t]) = [t]"
proof (induction xs arbitrary: i)
  case Nil
  then show ?case by simp
next
  case (Cons x xs)
  show ?case
  proof (cases "id' x = k")
    case True
    then have "i = 0" using Cons.prems(1) by simp
    moreover have "\<forall>u\<in>set xs. id' u \<noteq> k"
    proof (intro ballI notI)
      fix u assume "u \<in> set xs" "id' u = k"
      then have "k \<in> id' ` set xs" by blast
      then show False using True Cons.prems(3) by simp
    qed
    ultimately show ?thesis using Cons.prems(2) by (simp add: filter_empty_conv)
  next
    case False
    then obtain j where j: "findIndex (\<lambda>u. id' u = k) xs = Some j" "i = Suc j"
      using Cons.prems(1) by auto
    then show ?thesis using False Cons.IH[OF j(1) Cons.prems(2)] Cons.prems(3) by simp
  qed
qed

lemma replace_others:
  "findIndex (\<lambda>u. id' u = k) xs = Some i \<Longrightarrow> id' t = k \<Longrightarrow>
     filter (\<lambda>u. id' u \<noteq> k) (xs[i := t]) = filter (\<lambda>u. id' u \<noteq> k) xs"
proof (induction xs arbitrary: i)
  case Nil
  then show ?case by simp
next
  case (Cons x xs)
  then show ?case by (cases "id' x = k") auto
qed

lemma replace_ids:
  "findIndex (\<lambda>u. id' u = k) xs = Some i \<Longrightarrow> id' t = k \<Longrightarrow>
     map id' (xs[i := t]) = map id' xs"
  using findIndex_Some[of "\<lambda>u. id' u = k" xs i]
  by (simp add: map_update list_update_same_conv)

subsection \<open>Reachable stores\<close>

lemma save_ok:
  assumes "cloud_ok s" "saveTrackToCloud db track s = Inr s1"
  shows "cloud_ok s1"
proof (cases db)
  case IdbUnavailable
  show ?thesis
  proof (cases "findIndex (\<lambda>t. id' t = id' track) (arrays s (memoryStore s))")
    case None
    then have "s1 = s\<lparr>arrays := (arrays s)(memoryStore s := arrays s (memoryStore s) @ [track])\<rparr>"
      using assms(2) IdbUnavailable by (simp add: saveTrackToCloud_def Let_def)
    moreover have "id' track \<notin> id' ` set (arrays s (memoryStore s))"
      using None by (auto simp: findIndex_None)
    ultimately show ?thesis using assms(1) by (simp add: cloud_ok_def)
  next
    case (Some idx)
    then have "s1 = s\<lparr>arrays := (arrays s)(memoryStore s := (arrays s (memoryStore s))[idx := track])\<rparr>"
      using assms(2) IdbUnavailable by (simp add: saveTrackToCloud_def Let_def)
    then show ?thesis using assms(1) replace_ids[OF Some refl] by (simp add: cloud_ok_def)
  qed
next
  case IdbRequestFails
  then show ?thesis using assms by (simp add: saveTrackToCloud_def)
next
  case IdbOk
  then have "s1 = s\<lparr>tracksStore := store_put track (tracksStore s)\<rparr>"
    using assms(2) by (simp add: saveTrackToCloud_def)
  then show ?thesis using assms(1) store_put_sorted by (simp add: cloud_ok_def)
qed

lemma get_frame:
  assumes "memoryStore s < nextArray s" "getCloudTracks g db s = Inr (res, s1)"
  shows "res = nextArray s" and "memoryStore s1 = memoryStore s"
    and "tracksStore s1 = tracksStore s" and "nextArray s1 = nextArray s + 1"
    and "\<forall>r. r \<noteq> res \<longrightarrow> arrays s1 r = arrays s r"
    and "arrays s1 res = array_sort (dateCompare g) (stored_tracks db s)"
proof -
  have "res = nextArray s \<and> memoryStore s1 = memoryStore s \<and>
        tracksStore s1 = tracksStore s \<and> nextArray s1 = nextArray s + 1 \<and>
        (\<forall>r. r \<noteq> res \<longrightarrow> arrays s1 r = arrays s r) \<and>
        arrays s1 res = array_sort (dateCompare g) (stored_tracks db s)"
    using assms
    by (cases db)
       (auto simp: getCloudTracks_def new_array_def sort_in_place_def stored_tracks_def)
  then show "res = nextArray s" and "memoryStore s1 = memoryStore s"
    and "tracksStore s1 = tracksStore s" and "nextArray s1 = nextArray s + 1"
    and "\<forall>r. r \<noteq> res \<longrightarrow> arrays s1 r = arrays s r"
    and "arrays s1 res = array_sort (dateCompare g) (stored_tracks db s)"
    by blast+
qed

lemma get_ok:
  assumes "cloud_ok s" "getCloudTracks g db s = Inr (res, s1)"
  shows "cloud_ok s1"
proof -
  have m: "memoryStore s < nextArray s" using assms(1) by (simp add: cloud_ok_def)
  note f = get_frame[OF m assms(2)]
  have "memoryStore s \<noteq> res" using f(1) m by simp
  then have "arrays s1 (memoryStore s1) = arrays s (memoryStore s)" using f(2,5) by simp
  then show ?thesis using assms(1) f(2,3,4) by (simp add: cloud_ok_def)
qed

lemma after_call_ok: "cloud_ok s \<Longrightarrow> cloud_ok (after_call g c s)"
proof (cases c)
  case (SaveCall db track)
  assume "cloud_ok s"
  then show ?thesis using SaveCall save_ok[of s db track]
    by (cases "saveTrackToCloud db track s") simp_all
next
  case (GetCall db)
  assume "cloud_ok s"
  then show ?thesis using GetCall get_ok[of s g db]
    by (cases "getCloudTracks g db s") auto
next
  case PageReload
  assume "cloud_ok s"
  then show ?thesis using PageReload by (simp add: cloud_ok_def)
qed

lemma foldl_ok: "cloud_ok s \<Longrightarrow> cloud_ok (foldl (\<lambda>s c. after_call g c s) s calls)"
  by (induction calls arbitrary: s) (simp_all add: after_call_ok)

lemma after_calls_ok: "cloud_ok (after_calls g calls)"
  unfolding after_calls_def
  by (rule foldl_ok) (simp add: cloud_ok_def initial_cloud_def)

subsection \<open>The sort\<close>

text \<open>
  An array with an unparseable date in third place, where platforms differ: the model
  gives the arrangement V8 produces.
\<close>

lemma array_sort_inconsistent_example:
  "array_sort (\<lambda>a b. case (b, a) of (Some tb, Some ta) \<Rightarrow> tb - ta | _ \<Rightarrow> 0)
     [Some 1, Some 3, None, Some (2::int)] = [Some 3, Some 2, Some 1, None]"
  by code_simp

lemma mset_binary_insert: "mset (binary_insert c p w) = add_mset p (mset w)"
proof -
  have "mset (take n w @ p # drop n w) = add_mset p (mset (take n w @ drop n w))" for n
    by (simp only: mset_append mset.simps) simp
  then show ?thesis by (simp add: binary_insert_def Let_def)
qed

lemma mset_binary_insertion_sort:
  "mset (binary_insertion_sort c w rest) = mset w + mset rest"
  by (induction rest arbitrary: w) (simp_all add: mset_binary_insert)

lemma count_and_make_run_shape:
  obtains "xs = []" | x where "xs = [x]" | x0 x1 r where "xs = x0 # x1 # r"
  by (cases xs; cases "tl xs") auto

lemma mset_count_and_make_run:
  assumes a: "count_and_make_run c xs = (run, rest)"
  shows "mset run + mset rest = mset xs"
proof (cases xs rule: count_and_make_run_shape)
  case 1
  with a show ?thesis by simp
next
  case (2 x)
  with a show ?thesis by simp
next
  case (3 x0 x1 r)
  let ?n = "2 + extend_run c (c x1 x0 < 0) x1 r"
  have "mset run = mset (take ?n xs)" and "rest = drop ?n xs"
    using a 3 by (auto simp: Let_def split: if_splits)
  then have "mset run + mset rest = mset (take ?n xs @ drop ?n xs)"
    by (simp only: mset_append)
  then show ?thesis by simp
qed

lemma mset_array_sort: "mset (array_sort c xs) = mset xs"
proof (cases "length xs < 2")
  case True
  then show ?thesis by (simp add: array_sort_def)
next
  case False
  obtain run rest where r: "count_and_make_run c xs = (run, rest)"
    by (cases "count_and_make_run c xs")
  then have "array_sort c xs = binary_insertion_sort c run rest"
    using False by (simp add: array_sort_def)
  then show ?thesis
    using mset_count_and_make_run[OF r] by (simp add: mset_binary_insertion_sort)
qed

lemma set_array_sort: "set (array_sort c xs) = set xs"
proof -
  have "set_mset (mset (array_sort c xs)) = set_mset (mset xs)"
    by (simp only: mset_array_sort)
  then show ?thesis by simp
qed

lemma binary_position_correct:
  assumes "\<forall>x\<in>set w. c p x = t x - t p"
    and "sorted_wrt (\<lambda>a b. t b \<le> t a) w"
    and "left \<le> right" and "right \<le> length w"
    and "\<forall>i<left. t p \<le> t (w ! i)"
    and "\<forall>i. right \<le> i \<and> i < length w \<longrightarrow> t (w ! i) < t p"
  shows "binary_position c p w left right \<le> length w \<and>
         (\<forall>i<binary_position c p w left right. t p \<le> t (w ! i)) \<and>
         (\<forall>i. binary_position c p w left right \<le> i \<and> i < length w \<longrightarrow> t (w ! i) < t p)"
  using assms
proof (induction c p w left right rule: binary_position.induct)
  case (1 c pivot work left right)
  note nth = sorted_wrt_iff_nth_less[THEN iffD1, OF "1.prems"(2), rule_format]
  show ?case
  proof (cases "left < right")
    case False
    then have "binary_position c pivot work left right = left"
      by (subst binary_position.simps) simp
    moreover have "left = right" using False "1.prems"(3) by simp
    ultimately show ?thesis using "1.prems"(4,5,6) by simp
  next
    case True
    define mid where "mid = left + (right - left) div 2"
    have m: "left \<le> mid" "mid < right" using True by (simp_all add: mid_def) 
    have ml: "mid < length work" using m "1.prems"(4) by simp
    have cm: "c pivot (work ! mid) = t (work ! mid) - t pivot"
      using "1.prems"(1) ml by simp
    show ?thesis
    proof (cases "c pivot (work ! mid) < 0")
      case lt: True
      have eq: "binary_position c pivot work left right = binary_position c pivot work left mid"
        using True lt by (subst binary_position.simps) (simp add: mid_def Let_def)
      have "\<forall>i. mid \<le> i \<and> i < length work \<longrightarrow> t (work ! i) < t pivot"
      proof (intro allI impI)
        fix i assume i: "mid \<le> i \<and> i < length work"
        show "t (work ! i) < t pivot"
        proof (cases "i = mid")
          case True
          then show ?thesis using lt cm by simp
        next
          case False
          then have "t (work ! i) \<le> t (work ! mid)" using nth[of mid i] i by simp
          then show ?thesis using lt cm by simp
        qed
      qed
      then have inv: "\<forall>i. mid \<le> i \<and> i < length work \<longrightarrow> t (work ! i) < t pivot" .
      have "mid \<le> length work" using ml by simp
      from "1.IH"(1)[OF True mid_def lt "1.prems"(1,2) m(1) this "1.prems"(5) inv]
      show ?thesis unfolding eq .
    next
      case ge: False
      have eq: "binary_position c pivot work left right =
                  binary_position c pivot work (mid + 1) right"
        using True ge by (subst binary_position.simps) (simp add: mid_def Let_def)
      have "\<forall>i<mid + 1. t pivot \<le> t (work ! i)"
      proof (intro allI impI)
        fix i assume i: "i < mid + 1"
        show "t pivot \<le> t (work ! i)"
        proof (cases "i = mid")
          case True
          then show ?thesis using ge cm by simp
        next
          case False
          then have "t (work ! mid) \<le> t (work ! i)" using nth[of i mid] i ml by simp
          then show ?thesis using ge cm by simp
        qed
      qed
      then have inv: "\<forall>i<mid + 1. t pivot \<le> t (work ! i)" .
      have "mid + 1 \<le> right" using m(2) by simp
      from "1.IH"(2)[OF True mid_def ge "1.prems"(1,2) this "1.prems"(4) inv "1.prems"(6)]
      show ?thesis unfolding eq .
    qed
  qed
qed

lemma set_binary_insert: "set (binary_insert c p w) = insert p (set w)"
proof -
  have "set_mset (mset (binary_insert c p w)) = set_mset (add_mset p (mset w))"
    by (simp only: mset_binary_insert)
  then show ?thesis by simp
qed

lemma binary_insert_sorted:
  assumes agree: "\<forall>x\<in>set w. c p x = t x - t p"
    and sorted: "sorted_wrt (\<lambda>a b. t b \<le> t a) w"
  shows "sorted_wrt (\<lambda>a b. t b \<le> t a) (binary_insert c p w)"
proof -
  let ?l = "binary_position c p w 0 (length w)"
  have pos: "?l \<le> length w" "\<forall>i<?l. t p \<le> t (w ! i)"
            "\<forall>i. ?l \<le> i \<and> i < length w \<longrightarrow> t (w ! i) < t p"
    using binary_position_correct[of w c p t 0 "length w"] agree sorted by simp_all
  have front: "\<forall>x\<in>set (take ?l w). t p \<le> t x"
    using pos(1,2) by (auto simp: in_set_conv_nth)
  have behind: "\<forall>y\<in>set (drop ?l w). t y \<le> t p"
  proof
    fix y assume "y \<in> set (drop ?l w)"
    then obtain j where "j < length w - ?l" "y = w ! (?l + j)"
      by (auto simp: in_set_conv_nth)
    then show "t y \<le> t p" using pos(3) by (simp add: less_imp_le)
  qed
  have "sorted_wrt (\<lambda>a b. t b \<le> t a) (take ?l w @ drop ?l w)" using sorted by simp
  note split = this[unfolded sorted_wrt_append]
  then have s: "sorted_wrt (\<lambda>a b. t b \<le> t a) (take ?l w)"
      "sorted_wrt (\<lambda>a b. t b \<le> t a) (drop ?l w)"
      "\<forall>x\<in>set (take ?l w). \<forall>y\<in>set (drop ?l w). t y \<le> t x"
    by blast+
  have "sorted_wrt (\<lambda>a b. t b \<le> t a) (take ?l w @ p # drop ?l w)"
    using s front behind by (simp add: sorted_wrt_append)
  then show ?thesis by (simp add: binary_insert_def Let_def)
qed

lemma binary_insertion_sort_sorted:
  assumes agree: "\<forall>x\<in>A. \<forall>y\<in>A. c x y = t y - t x"
  shows "set w \<subseteq> A \<Longrightarrow> set rest \<subseteq> A \<Longrightarrow> sorted_wrt (\<lambda>a b. t b \<le> t a) w \<Longrightarrow>
         sorted_wrt (\<lambda>a b. t b \<le> t a) (binary_insertion_sort c w rest)"
proof (induction rest arbitrary: w)
  case Nil
  then show ?case by simp
next
  case (Cons p rest)
  have "sorted_wrt (\<lambda>a b. t b \<le> t a) (binary_insert c p w)"
  proof (rule binary_insert_sorted)
    show "\<forall>x\<in>set w. c p x = t x - t p" using Cons.prems agree by auto
    show "sorted_wrt (\<lambda>a b. t b \<le> t a) w" using Cons.prems by simp
  qed
  moreover have "set (binary_insert c p w) \<subseteq> A"
    using Cons.prems by (simp add: set_binary_insert)
  ultimately show ?case using Cons.IH Cons.prems by simp
qed

lemma run_not_descending:
  assumes agree: "\<forall>x\<in>A. \<forall>y\<in>A. c x y = t y - t x"
  shows "insert prev (set rest) \<subseteq> A \<Longrightarrow>
         sorted_wrt (\<lambda>a b. t b \<le> t a) (prev # take (extend_run c False prev rest) rest)"
proof (induction rest arbitrary: prev)
  case Nil
  then show ?case by simp
next
  case (Cons cur rest)
  show ?case
  proof (cases "c cur prev < 0")
    case True
    then show ?thesis by simp
  next
    case False
    have "c cur prev = t prev - t cur" using agree Cons.prems by simp
    then have pc: "t cur \<le> t prev" using False by simp
    have ih: "sorted_wrt (\<lambda>a b. t b \<le> t a) (cur # take (extend_run c False cur rest) rest)"
      using Cons.IH[of cur] Cons.prems by simp
    then have "\<forall>y\<in>set (take (extend_run c False cur rest) rest). t y \<le> t prev"
      using pc by auto
    then show ?thesis using False pc ih by simp
  qed
qed

lemma run_descending:
  assumes agree: "\<forall>x\<in>A. \<forall>y\<in>A. c x y = t y - t x"
  shows "insert prev (set rest) \<subseteq> A \<Longrightarrow>
         sorted_wrt (\<lambda>a b. t a < t b) (prev # take (extend_run c True prev rest) rest)"
proof (induction rest arbitrary: prev)
  case Nil
  then show ?case by simp
next
  case (Cons cur rest)
  show ?case
  proof (cases "c cur prev \<ge> 0")
    case True
    then show ?thesis by simp
  next
    case False
    have "c cur prev = t prev - t cur" using agree Cons.prems by simp
    then have pc: "t prev < t cur" using False by simp
    have ih: "sorted_wrt (\<lambda>a b. t a < t b) (cur # take (extend_run c True cur rest) rest)"
      using Cons.IH[of cur] Cons.prems by simp
    then have "\<forall>y\<in>set (take (extend_run c True cur rest) rest). t prev < t y"
      using pc by auto
    then show ?thesis using False pc ih by simp
  qed
qed

lemma count_and_make_run_sorted:
  assumes agree: "\<forall>x\<in>A. \<forall>y\<in>A. c x y = t y - t x"
    and sub: "set xs \<subseteq> A"
    and run: "count_and_make_run c xs = (run, rest)"
  shows "sorted_wrt (\<lambda>a b. t b \<le> t a) run"
proof (cases xs rule: count_and_make_run_shape)
  case 1
  with run show ?thesis by simp
next
  case (2 x)
  with run show ?thesis by auto
next
  case (3 x0 x1 r)
  have c10: "c x1 x0 = t x0 - t x1" using agree sub 3 by simp
  show ?thesis
  proof (cases "c x1 x0 < 0")
    case True
    have e: "extend_run c True x0 (x1 # r) = Suc (extend_run c True x1 r)"
      using True by simp
    have "sorted_wrt (\<lambda>a b. t a < t b) (x0 # take (extend_run c True x0 (x1 # r)) (x1 # r))"
      using run_descending[OF agree, of x0 "x1 # r"] sub 3 by simp
    then have "sorted_wrt (\<lambda>a b. t a < t b) (take (2 + extend_run c True x1 r) xs)"
      using e 3 by simp
    then have "sorted_wrt (\<lambda>a b. t b < t a) (rev (take (2 + extend_run c True x1 r) xs))"
      by (simp only: sorted_wrt_rev)
    then have "sorted_wrt (\<lambda>a b. t b \<le> t a) (rev (take (2 + extend_run c True x1 r) xs))"
      by (rule sorted_wrt_mono_rel[rotated]) simp
    moreover have "run = rev (take (2 + extend_run c True x1 r) xs)"
      using run 3 True by (simp add: Let_def)
    ultimately show ?thesis by simp
  next
    case False
    have e: "extend_run c False x0 (x1 # r) = Suc (extend_run c False x1 r)"
      using False by simp
    have "sorted_wrt (\<lambda>a b. t b \<le> t a) (x0 # take (extend_run c False x0 (x1 # r)) (x1 # r))"
      using run_not_descending[OF agree, of x0 "x1 # r"] sub 3 by simp
    then have "sorted_wrt (\<lambda>a b. t b \<le> t a) (take (2 + extend_run c False x1 r) xs)"
      using e 3 by simp
    moreover have "run = take (2 + extend_run c False x1 r) xs"
      using run 3 False by (simp add: Let_def)
    ultimately show ?thesis by simp
  qed
qed

lemma array_sort_sorted:
  assumes agree: "\<forall>x\<in>A. \<forall>y\<in>A. c x y = t y - t x"
    and sub: "set xs \<subseteq> A"
  shows "sorted_wrt (\<lambda>a b. t b \<le> t a) (array_sort c xs)"
proof (cases "length xs < 2")
  case True
  then have "xs = [] \<or> (\<exists>x. xs = [x])"
    by (cases xs) (auto simp: length_Suc_conv)
  then show ?thesis using True by (auto simp: array_sort_def)
next
  case False
  obtain run rest where r: "count_and_make_run c xs = (run, rest)"
    by (cases "count_and_make_run c xs")
  have e: "array_sort c xs = binary_insertion_sort c run rest"
    using False r by (simp add: array_sort_def)
  have "set_mset (mset run + mset rest) = set_mset (mset xs)"
    by (simp only: mset_count_and_make_run[OF r])
  then have s: "set run \<subseteq> A" "set rest \<subseteq> A" using sub by auto
  show ?thesis
    unfolding e
    by (rule binary_insertion_sort_sorted[OF agree s count_and_make_run_sorted[OF agree sub r]])
qed

lemma newest_first_sort:
  assumes "dates_valid g xs"
  shows "newest_first g (array_sort (dateCompare g) xs)"
proof -
  let ?A = "{x. g (date x) \<noteq> None}"
  let ?t = "\<lambda>x. the (g (date x))"
  have agree: "\<forall>x\<in>?A. \<forall>y\<in>?A. dateCompare g x y = ?t y - ?t x"
    by (auto simp: dateCompare_def)
  have sub: "set xs \<subseteq> ?A" using assms by (auto simp: dates_valid_def list_all_iff)
  have s: "sorted_wrt (\<lambda>a b. ?t b \<le> ?t a) (array_sort (dateCompare g) xs)"
    by (rule array_sort_sorted[OF agree sub])
  have "sorted_wrt (not_older g) (array_sort (dateCompare g) xs)"
  proof (rule sorted_wrt_mono_rel[OF _ s])
    fix a b
    assume "a \<in> set (array_sort (dateCompare g) xs)" "b \<in> set (array_sort (dateCompare g) xs)"
      and le: "?t b \<le> ?t a"
    then have "a \<in> ?A" "b \<in> ?A" using sub by (auto simp: set_array_sort)
    then show "not_older g a b" using le by (auto simp: not_older_def)
  qed
  then show ?thesis by (simp add: newest_first_def)
qed

subsection \<open>Reading and saving\<close>

lemma get_completes:
  assumes "db \<noteq> IdbRequestFails"
  shows "\<exists>res s1. getCloudTracks g db s = Inr (res, s1)"
  using assms by (cases db) (simp_all add: getCloudTracks_def new_array_def)

lemma save_completes:
  assumes "db \<noteq> IdbRequestFails"
  shows "\<exists>s1. saveTrackToCloud db track s = Inr s1"
  using assms by (cases db) (auto simp: saveTrackToCloud_def Let_def split: option.splits)

lemma save_other_store:
  assumes "saveTrackToCloud db track s = Inr s1"
  shows "memoryStore s1 = memoryStore s \<and> nextArray s1 = nextArray s \<and>
         (db = IdbOk \<longrightarrow> arrays s1 = arrays s) \<and>
         (db = IdbUnavailable \<longrightarrow> tracksStore s1 = tracksStore s)"
  using assms
  by (cases db) (auto simp: saveTrackToCloud_def Let_def split: option.splits)

lemma example_memory:
  "after_calls example_getTime
     [SaveCall IdbUnavailable track_a, SaveCall IdbUnavailable track_x,
      SaveCall IdbUnavailable track_b] =
     \<lparr>tracksStore = [], arrays = (\<lambda>r. [])(0 := [track_a, track_x, track_b]), nextArray = 1,
      memoryStore = 0\<rparr>"
  by (simp add: after_calls_def saveTrackToCloud_def initial_cloud_def Let_def track_a_def
        track_b_def track_x_def)

lemma example_database:
  "after_calls example_getTime [SaveCall IdbOk track_b, SaveCall IdbOk track_a] =
     \<lparr>tracksStore = [track_a, track_b], arrays = (\<lambda>r. []), nextArray = 1, memoryStore = 0\<rparr>"
  by (simp add: after_calls_def saveTrackToCloud_def initial_cloud_def track_a_def track_b_def)

lemma example_dates:
  "example_getTime (date track_a) = Some 1735689600000"
  "example_getTime (date track_b) = Some 1735776000000"
  "example_getTime (date track_x) = None"
  "example_getTime (date track_a2) = Some 1735776000000"
  by (simp_all add: example_getTime_def track_a_def track_b_def track_x_def track_a2_def)

text \<open>
  Claim C8 as stated fails. Three tracks are saved to the memory store: one dated 1
  January, one whose date does not parse, one dated 2 January. Every comparison with the
  unparseable date is \<open>NaN\<close>, taken as 0, so the array is one run that does not descend
  and \<open>sort\<close> leaves it as it is: the track of 1 January is returned before the track
  of 2 January.
\<close>

theorem getCloudTracks_unparseable_date_counterexample:
  "returned_tracks example_getTime IdbUnavailable
     (after_calls example_getTime
        [SaveCall IdbUnavailable track_a, SaveCall IdbUnavailable track_x,
         SaveCall IdbUnavailable track_b]) = Some [track_a, track_x, track_b] \<and>
   example_getTime (date track_a) = Some 1735689600000 \<and>
   example_getTime (date track_b) = Some 1735776000000 \<and>
   \<not> newest_first example_getTime [track_a, track_x, track_b] \<and>
   \<not> newest_first example_getTime [track_a, track_b]"
proof -
  have "array_sort (dateCompare example_getTime) [track_a, track_x, track_b] =
          [track_a, track_x, track_b]"
    by (simp add: array_sort_def dateCompare_def example_dates Let_def)
  then have "returned_tracks example_getTime IdbUnavailable
     (after_calls example_getTime
        [SaveCall IdbUnavailable track_a, SaveCall IdbUnavailable track_x,
         SaveCall IdbUnavailable track_b]) = Some [track_a, track_x, track_b]"
    unfolding example_memory
    by (simp add: returned_tracks_def getCloudTracks_def new_array_def sort_in_place_def)
  then show ?thesis
    by (simp add: newest_first_def not_older_def example_dates)
qed

text \<open>
  Claim C8, amended. In any state reached by calls of the module, a call of
  \<open>getCloudTracks\<close> whose request does not fail completes, on the IndexedDB path and on
  the in-memory path alike; the returned array holds exactly the stored tracks and, when
  every stored date parses, is ordered by non-increasing date; it is a new array,
  different from \<open>memoryStore\<close>, and the memory store and the object store are left as
  they were.
\<close>

theorem getCloudTracks_newest_first:
  assumes "s = after_calls getTime calls" and "db \<noteq> IdbRequestFails"
  shows "\<exists>res s1. getCloudTracks getTime db s = Inr (res, s1) \<and>
           (dates_valid getTime (stored_tracks db s) \<longrightarrow> newest_first getTime (arrays s1 res)) \<and>
           mset (arrays s1 res) = mset (stored_tracks db s) \<and>
           res \<noteq> memoryStore s \<and> memoryStore s1 = memoryStore s \<and>
           arrays s1 (memoryStore s) = arrays s (memoryStore s) \<and>
           tracksStore s1 = tracksStore s"
proof -
  obtain res s1 where g: "getCloudTracks getTime db s = Inr (res, s1)"
    using get_completes[OF assms(2)] by blast
  have ok: "cloud_ok s" using assms(1) after_calls_ok by simp
  then have m: "memoryStore s < nextArray s" by (simp add: cloud_ok_def)
  note f = get_frame[OF m g]
  have ne: "res \<noteq> memoryStore s" using f(1) m by simp
  have "dates_valid getTime (stored_tracks db s) \<longrightarrow> newest_first getTime (arrays s1 res)"
    using newest_first_sort[of getTime "stored_tracks db s"] by (simp only: f(6)) simp
  moreover have "mset (arrays s1 res) = mset (stored_tracks db s)"
    by (simp only: f(6) mset_array_sort)
  moreover have "arrays s1 (memoryStore s) = arrays s (memoryStore s)"
    using f(5) ne by simp
  ultimately show ?thesis using g f(2,3) ne by blast
qed

theorem getCloudTracks_newest_first_witness:
  "IdbOk \<noteq> IdbRequestFails \<and>
   dates_valid example_getTime
     (stored_tracks IdbOk
        (after_calls example_getTime [SaveCall IdbOk track_b, SaveCall IdbOk track_a])) \<and>
   returned_tracks example_getTime IdbOk
     (after_calls example_getTime [SaveCall IdbOk track_b, SaveCall IdbOk track_a]) =
     Some [track_b, track_a] \<and>
   newest_first example_getTime [track_b, track_a]"
proof -
  let ?s = "after_calls example_getTime [SaveCall IdbOk track_b, SaveCall IdbOk track_a]"
  have v: "dates_valid example_getTime (stored_tracks IdbOk ?s)"
    unfolding example_database
    by (simp add: stored_tracks_def dates_valid_def example_dates)
  have "array_sort (dateCompare example_getTime) [track_a, track_b] = [track_b, track_a]"
    by (simp add: array_sort_def dateCompare_def example_dates Let_def)
  then have g: "getCloudTracks example_getTime IdbOk ?s =
          Inr (1, \<lparr>tracksStore = [track_a, track_b], arrays = (\<lambda>r. [])(1 := [track_b, track_a]),
                   nextArray = 2, memoryStore = 0\<rparr>)"
    unfolding example_database
    by (simp add: getCloudTracks_def new_array_def sort_in_place_def)
  then have r: "returned_tracks example_getTime IdbOk ?s = Some [track_b, track_a]"
    by (simp add: returned_tracks_def)
  from getCloudTracks_newest_first[where db = IdbOk and getTime = example_getTime
      and calls = "[SaveCall IdbOk track_b, SaveCall IdbOk track_a]", OF refl] v g r
  show ?thesis by simp
qed

text \<open>
  Claim C9. \<open>saveTrackToCloud\<close> is an upsert keyed on \<open>id\<close>: in any state reached by
  calls of the module, a call whose request does not fail completes, and afterwards the
  store written to (the object store, or the memory store when IndexedDB is unavailable)
  holds exactly one record with the id of the saved track, namely that track, and the
  records with other ids are as before; the other store is untouched.
\<close>

theorem saveTrackToCloud_upsert:
  assumes "s = after_calls getTime calls" and "db \<noteq> IdbRequestFails"
  shows "\<exists>s1. saveTrackToCloud db track s = Inr s1 \<and>
           filter (\<lambda>t. id' t = id' track) (stored_tracks db s1) = [track] \<and>
           length (filter (\<lambda>t. id' t = id' track) (stored_tracks db s1)) = 1 \<and>
           filter (\<lambda>t. id' t \<noteq> id' track) (stored_tracks db s1) =
             filter (\<lambda>t. id' t \<noteq> id' track) (stored_tracks db s) \<and>
           (db = IdbOk \<longrightarrow> arrays s1 = arrays s) \<and>
           (db = IdbUnavailable \<longrightarrow> tracksStore s1 = tracksStore s)"
proof -
  obtain s1 where sv: "saveTrackToCloud db track s = Inr s1"
    using save_completes[OF assms(2)] by blast
  have ok: "cloud_ok s" using assms(1) after_calls_ok by simp
  have "filter (\<lambda>t. id' t = id' track) (stored_tracks db s1) = [track] \<and>
        filter (\<lambda>t. id' t \<noteq> id' track) (stored_tracks db s1) =
           filter (\<lambda>t. id' t \<noteq> id' track) (stored_tracks db s)"
  proof (cases db)
    case IdbUnavailable
    show ?thesis
    proof (cases "findIndex (\<lambda>t. id' t = id' track) (arrays s (memoryStore s))")
      case None
      then have "s1 = s\<lparr>arrays := (arrays s)(memoryStore s := arrays s (memoryStore s) @ [track])\<rparr>"
        using sv IdbUnavailable by (simp add: saveTrackToCloud_def Let_def)
      moreover have "\<forall>u\<in>set (arrays s (memoryStore s)). id' u \<noteq> id' track"
        using None by (simp add: findIndex_None)
      ultimately show ?thesis using IdbUnavailable
        by (simp add: stored_tracks_def filter_empty_conv)
    next
      case (Some idx)
      then have "s1 = s\<lparr>arrays := (arrays s)(memoryStore s := (arrays s (memoryStore s))[idx := track])\<rparr>"
        using sv IdbUnavailable by (simp add: saveTrackToCloud_def Let_def)
      moreover have "distinct (map id' (arrays s (memoryStore s)))"
        using ok by (simp add: cloud_ok_def)
      ultimately show ?thesis
        using IdbUnavailable replace_same[OF Some refl] replace_others[OF Some refl]
        by (simp add: stored_tracks_def)
    qed
  next
    case IdbRequestFails
    then show ?thesis using assms(2) by simp
  next
    case IdbOk
    then have "s1 = s\<lparr>tracksStore := store_put track (tracksStore s)\<rparr>"
      using sv by (simp add: saveTrackToCloud_def)
    moreover have "sorted_wrt (<) (map id' (tracksStore s))"
      using ok by (simp add: cloud_ok_def)
    ultimately show ?thesis using IdbOk store_put_same store_put_others
      by (simp add: stored_tracks_def)
  qed
  then show ?thesis using sv save_other_store[OF sv] by auto
qed

theorem saveTrackToCloud_upsert_witness:
  "IdbOk \<noteq> IdbRequestFails \<and>
   saveTrackToCloud IdbOk track_a2
     (after_calls example_getTime [SaveCall IdbOk track_b, SaveCall IdbOk track_a]) =
     Inr \<lparr>tracksStore = [track_a2, track_b], arrays = (\<lambda>r. []), nextArray = 1,
          memoryStore = 0\<rparr> \<and>
   filter (\<lambda>t. id' t = id' track_a2) [track_a2, track_b] = [track_a2] \<and>
   filter (\<lambda>t. id' t \<noteq> id' track_a2) [track_a2, track_b] =
     filter (\<lambda>t. id' t \<noteq> id' track_a2) [track_a, track_b]"
proof -
  let ?s = "after_calls example_getTime [SaveCall IdbOk track_b, SaveCall IdbOk track_a]"
  have g: "saveTrackToCloud IdbOk track_a2 ?s =
     Inr \<lparr>tracksStore = [track_a2, track_b], arrays = (\<lambda>r. []), nextArray = 1,
          memoryStore = 0\<rparr>"
    unfolding example_database
    by (simp add: saveTrackToCloud_def track_a_def track_b_def track_a2_def)
  have st: "stored_tracks IdbOk ?s = [track_a, track_b]"
    unfolding example_database by (simp add: stored_tracks_def)
  from saveTrackToCloud_upsert[where db = IdbOk and track = track_a2
      and getTime = example_getTime
      and calls = "[SaveCall IdbOk track_b, SaveCall IdbOk track_a]", OF refl] g st
  show ?thesis by (simp add: stored_tracks_def)
qed

section \<open>Results about the rendering engine\<close>

subsection \<open>Progress\<close>

lemma render_blocks_trace:
  "render_blocks eng q b record_progress nblocks ks st out tr0 = Inr (res, tr) \<Longrightarrow>
     tr = tr0 @ map (\<lambda>k. (100 * (k + 1)) div nblocks) ks"
proof (induction ks arbitrary: st out tr0)
  case Nil
  then show ?case by simp
next
  case (Cons k ks)
  from Cons.prems obtain blk st1 where
    rb: "render_blocks eng q b record_progress nblocks ks st1 (append_block out blk)
           (record_progress ((100 * (k + 1)) div nblocks) tr0) = Inr (res, tr)"
    by (auto split: sum.splits)
  from Cons.IH[OF rb] show ?case by (simp add: record_progress_def)
qed

lemma block_count_pos: "0 < len \<Longrightarrow> 0 < n \<Longrightarrow> 0 < block_count len n"
  by (simp add: block_count_def div_greater_zero_iff)

lemma percent_props:
  assumes "0 < (t::nat)"
  shows "map (\<lambda>k. (100 * (k + 1)) div t) [0..<t] \<noteq> []"
    and "list_all (\<lambda>v. v \<le> 100) (map (\<lambda>k. (100 * (k + 1)) div t) [0..<t])"
    and "sorted (map (\<lambda>k. (100 * (k + 1)) div t) [0..<t])"
    and "last (map (\<lambda>k. (100 * (k + 1)) div t) [0..<t]) = 100"
    and "count_list (map (\<lambda>k. (100 * (k + 1)) div t) [0..<t]) 100 = 1"
proof -
  let ?f = "\<lambda>k. (100 * (k + 1)) div t"
  show "map ?f [0..<t] \<noteq> []" using assms by simp
  have le: "\<And>k. k < t \<Longrightarrow> ?f k \<le> 100"
  proof -
    fix k assume "k < t"
    then have "100 * (k + 1) \<le> 100 * t" by simp
    then have "?f k \<le> (100 * t) div t" by (rule div_le_mono)
    then show "?f k \<le> 100" using assms by simp
  qed
  then show "list_all (\<lambda>v. v \<le> 100) (map ?f [0..<t])"
    by (simp add: list_all_iff)
  have "sorted_wrt (\<lambda>i j. ?f i \<le> ?f j) [0..<t]"
    by (rule sorted_wrt_mono_rel[of _ "(\<le>)"]) (auto intro!: div_le_mono)
  then show "sorted (map ?f [0..<t])"
    by (simp only: sorted_map)
  obtain m where m: "t = Suc m" using assms by (cases t) auto
  have "(100 * Suc m) div Suc m = (100::nat)"
    by (rule nonzero_mult_div_cancel_right) simp
  then have fm: "?f m = 100" by (simp add: m)
  have split: "map ?f [0..<t] = map ?f [0..<m] @ [100]"
    using fm by (simp add: m)
  show "last (map ?f [0..<t]) = 100" by (simp only: split last_snoc)
  have lt: "\<And>k. k < m \<Longrightarrow> ?f k \<noteq> 100"
  proof -
    fix k assume "k < m"
    then have "100 * (k + 1) < 100 * t" by (simp add: m)
    then have "?f k < 100" using assms by (simp add: div_less_iff_less_mult mult.commute)
    then show "?f k \<noteq> 100" by simp
  qed
  then have "filter ((=) 100) (map ?f [0..<m]) = []"
    by (auto simp: filter_empty_conv)
  then have "filter ((=) 100) (map ?f [0..<t]) = [100]"
    by (simp only: split filter_append) simp
  then show "count_list (map ?f [0..<t]) 100 = 1"
    by (simp only: count_list_eq_length_filter) simp
qed

lemma render_blocks_callback:
  "render_blocks eng q b f nblocks ks st out (foldl (\<lambda>c v. f v c) c0 tr0) =
     map_sum id (\<lambda>(res, tr). (res, foldl (\<lambda>c v. f v c) c0 tr))
       (render_blocks eng q b record_progress nblocks ks st out tr0)"
proof (induction ks arbitrary: st out tr0)
  case Nil
  then show ?case by simp
next
  case (Cons k ks)
  show ?case
  proof (cases "run_stages eng q stage_order st (input_block (blockLength eng) b k)")
    case (Inl e)
    then show ?thesis by simp
  next
    case (Inr r)
    obtain blk st1 where r: "r = (blk, st1)" by (cases r)
    have "f ((100 * (k + 1)) div nblocks) (foldl (\<lambda>c v. f v c) c0 tr0) =
            foldl (\<lambda>c v. f v c) c0 (record_progress ((100 * (k + 1)) div nblocks) tr0)"
      by (simp add: record_progress_def)
    then show ?thesis using Inr r Cons.IH by simp
  qed
qed

lemma render_callback:
  "render eng b p f c =
     map_sum id (\<lambda>(res, tr). (res, foldl (\<lambda>c v. f v c) c tr))
       (render eng b p record_progress [])"
proof -
  have "render_blocks eng q b f nblocks ks st out c =
          map_sum id (\<lambda>(res, tr). (res, foldl (\<lambda>c v. f v c) c tr))
            (render_blocks eng q b record_progress nblocks ks st out [])"
    for q nblocks ks st out
    using render_blocks_callback[of eng q b f nblocks ks st out c "[]"] by simp
  then show ?thesis
    by (simp add: render_def Let_def record_progress_def split: sum.splits prod.splits)
qed

text \<open>
  Claim C4. In every successful render with a positive block length, the values passed to
  \<open>onProgress\<close> are at least one, all at most 100 (and, being naturals, at least 0),
  non-decreasing, the last one is 100, and 100 is passed exactly once.
\<close>

theorem render_progress_trace:
  assumes "0 < blockLength eng" "render eng b p record_progress [] = Inr (out, tr)"
  shows "tr \<noteq> [] \<and> list_all (\<lambda>v. v \<le> 100) tr \<and> sorted tr \<and> last tr = 100 \<and>
         count_list tr 100 = 1"
proof (cases "frameCount b = 0")
  case True
  then have "tr = [100]"
    using assms(2) by (simp add: render_def Let_def record_progress_def split: if_splits)
  then show ?thesis by simp
next
  case False
  let ?n = "block_count (blockLength eng) (frameCount b)"
  have n: "0 < ?n" using assms(1) False by (simp add: block_count_pos)
  from assms(2) False obtain res where
    "render_blocks eng (clampParams p) b record_progress ?n [0..<?n] (initialState eng)
       (map (\<lambda>c. []) (channels b)) [] = Inr (res, tr)"
    by (auto simp: render_def Let_def split: if_splits sum.splits)
  then have "tr = map (\<lambda>k. (100 * (k + 1)) div ?n) [0..<?n]"
    using render_blocks_trace by fastforce
  then show ?thesis using percent_props[OF n] by simp
qed

theorem render_progress_trace_witness:
  "0 < blockLength passthrough_engine \<and>
   render passthrough_engine five_frame_buffer INITIAL_PARAMS record_progress [] =
     Inr (five_frame_buffer, [33, 66, 100]) \<and>
   sorted [33, 66, 100 :: nat] \<and> last [33, 66, 100 :: nat] = 100 \<and>
   count_list [33, 66, 100 :: nat] 100 = 1"
proof -
  have u: "[0..<3] = [0, 1, 2]" by (simp add: upt_rec)
  have r: "render passthrough_engine five_frame_buffer INITIAL_PARAMS record_progress [] =
             Inr (five_frame_buffer, [33, 66, 100])"
    by (simp add: render_def Let_def valid_buffer_def five_frame_buffer_def
          passthrough_engine_def block_count_def u stage_order_def input_block_def
          append_block_def record_progress_def)
  have b: "0 < blockLength passthrough_engine" by (simp add: passthrough_engine_def)
  from render_progress_trace[OF b r] b r show ?thesis by simp
qed

subsection \<open>Clamping\<close>

lemma domain_ordered: "declared_domain k = Some (lo, hi) \<Longrightarrow> lo \<le> hi"
  by (cases k) auto

lemma clampParams_in_domain: "in_domain (clampParams p)"
proof -
  have "in_range k (clampParams p k)" for k
  proof (cases "declared_domain k")
    case None
    then show ?thesis by (simp add: in_range_def)
  next
    case (Some d)
    obtain lo hi where d: "d = (lo, hi)" by (cases d)
    have "lo \<le> hi" using Some d domain_ordered by simp
    then show ?thesis using Some d by (simp add: in_range_def clampParams_def clamp_def)
  qed
  then show ?thesis by (simp add: in_domain_iff)
qed

lemma clampParams_fixed: "in_domain p \<Longrightarrow> clampParams p = p"
proof
  fix k
  assume "in_domain p"
  then have r: "in_range k (p k)" by (simp add: in_domain_iff)
  show "clampParams p k = p k"
  proof (cases "declared_domain k")
    case None
    then show ?thesis by (simp add: clampParams_def)
  next
    case (Some d)
    obtain lo hi where d: "d = (lo, hi)" by (cases d)
    then show ?thesis using Some r by (simp add: in_range_def clampParams_def clamp_def)
  qed
qed

lemma clampParams_idem: "clampParams (clampParams p) = clampParams p"
  by (rule clampParams_fixed) (rule clampParams_in_domain)

lemma run_stages_strict:
  "in_domain q \<Longrightarrow> run_stages (strict_stages eng) q gs st blk = run_stages eng q gs st blk"
  by (induction gs arbitrary: st blk) (auto simp: strict_stages_def split: option.splits)

lemma render_blocks_strict:
  "in_domain q \<Longrightarrow>
     render_blocks (strict_stages eng) q b f n ks st out c = render_blocks eng q b f n ks st out c"
proof (induction ks arbitrary: st out c)
  case Nil
  then show ?case by simp
next
  case (Cons k ks)
  have "blockLength (strict_stages eng) = blockLength eng" by (simp add: strict_stages_def)
  then show ?case using Cons run_stages_strict[of q eng] by (simp split: sum.splits)
qed

lemma run_stages_error: "run_stages eng q gs st blk \<noteq> Inl ValidationError"
  by (induction gs arbitrary: st blk) (auto split: option.splits)

lemma render_blocks_error: "render_blocks eng q b f n ks st out c \<noteq> Inl ValidationError"
proof (induction ks arbitrary: st out c)
  case Nil
  then show ?case by simp
next
  case (Cons k ks)
  then show ?case using run_stages_error[of eng q stage_order]
    by (auto split: sum.splits)
qed

text \<open>
  Claim C5. Rendering clamps once at entry: the clamped set is in domain, rendering a set
  is rendering its clamped set, no stage is ever handed a value outside its domain (an
  engine whose stages fail on such a value renders the same), and a validation failure is
  raised exactly for a structurally invalid buffer, whatever the parameter values.
\<close>

theorem render_clamps_at_entry:
  "in_domain (clampParams p) \<and>
   render eng b p f c = render eng b (clampParams p) f c \<and>
   render (strict_stages eng) b p f c = render eng b p f c \<and>
   (render eng b p f c = Inl ValidationError) = (\<not> valid_buffer b)"
proof -
  have a: "render eng b p f c = render eng b (clampParams p) f c"
    by (simp add: render_def clampParams_idem)
  have s: "blockLength (strict_stages eng) = blockLength eng"
          "initialState (strict_stages eng) = initialState eng"
    by (simp_all add: strict_stages_def)
  have b: "render (strict_stages eng) b p f c = render eng b p f c"
    by (simp add: render_def Let_def s render_blocks_strict[OF clampParams_in_domain])
  have c: "(render eng b p f c = Inl ValidationError) = (\<not> valid_buffer b)"
    using render_blocks_error[of eng "clampParams p" b f]
    by (auto simp: render_def Let_def split: sum.splits)
  from a b c clampParams_in_domain show ?thesis by blast
qed

subsection \<open>Time stretch\<close>

lemma stretch_fields:
  "frameCount (pitchTimeStretch r pitch stretch b) = nat (round (real (frameCount b) * stretch))"
  "sampleRate (pitchTimeStretch r pitch stretch b) = sampleRate b"
  "channels (pitchTimeStretch r pitch stretch b) =
     map (stretch_channel r pitch stretch (nat (round (real (frameCount b) * stretch))))
       (channels b)"
  by (simp_all add: pitchTimeStretch_def Let_def)

lemma stretch_valid:
  "valid_buffer b \<Longrightarrow> valid_buffer (pitchTimeStretch r pitch stretch b)"
  by (simp add: valid_buffer_def stretch_fields stretch_channel_def list_all_iff)

lemma stretch_round:
  assumes "0 \<le> stretch"
  shows "real (frameCount (pitchTimeStretch r pitch stretch b)) =
           of_int (round (real (frameCount b) * stretch))"
proof -
  have "0 \<le> real (frameCount b) * stretch" using assms by simp
  then have "0 \<le> round (real (frameCount b) * stretch)" by (simp add: round_def)
  then show ?thesis by (simp add: stretch_fields)
qed

lemma stretch_duration_error:
  assumes "0 < sampleRate b" "0 \<le> stretch"
  shows "\<bar>duration_of (pitchTimeStretch r pitch stretch b) - duration_of b * stretch\<bar> =
           \<bar>of_int (round (real (frameCount b) * stretch)) - real (frameCount b) * stretch\<bar>
             / real_of_int (sampleRate b)"
proof -
  let ?x = "real (frameCount b) * stretch"
  let ?sr = "real_of_int (sampleRate b)"
  have sr: "0 < ?sr" using assms(1) by simp
  have "duration_of (pitchTimeStretch r pitch stretch b) - duration_of b * stretch =
          (of_int (round ?x) - ?x) / ?sr"
    using sr by (simp add: duration_of_def stretch_fields(2) stretch_round[OF assms(2)]
        diff_divide_distrib)
  then show ?thesis using sr by simp
qed

lemma stretch_half_sample:
  assumes "0 < sampleRate b" "0 \<le> stretch"
  shows "\<bar>duration_of (pitchTimeStretch r pitch stretch b) - duration_of b * stretch\<bar>
           \<le> 1 / (2 * real_of_int (sampleRate b))"
proof -
  let ?x = "real (frameCount b) * stretch"
  let ?sr = "real_of_int (sampleRate b)"
  have sr: "0 < ?sr" using assms(1) by simp
  have h: "\<bar>of_int (round ?x) - ?x\<bar> \<le> 1 / 2" by (rule of_int_round_abs_le)
  have "\<bar>duration_of (pitchTimeStretch r pitch stretch b) - duration_of b * stretch\<bar> =
          \<bar>of_int (round ?x) - ?x\<bar> / ?sr"
    by (rule stretch_duration_error[OF assms])
  also have "\<dots> \<le> (1 / 2) / ?sr"
    by (intro divide_right_mono h less_imp_le sr)
  also have "\<dots> = 1 / (2 * ?sr)" by simp
  finally show ?thesis .
qed

lemma stretch_two_percent:
  assumes "0 < sampleRate b" "0 \<le> stretch" "25 \<le> real (frameCount b) * stretch"
  shows "within_tolerance 0.02 (duration_of (pitchTimeStretch r pitch stretch b))
           (duration_of b * stretch)"
proof -
  let ?x = "real (frameCount b) * stretch"
  let ?sr = "real_of_int (sampleRate b)"
  have sr: "0 < ?sr" using assms(1) by simp
  have "\<bar>of_int (round ?x) - ?x\<bar> \<le> 1 / 2" by (rule of_int_round_abs_le)
  also have "\<dots> \<le> 0.02 * ?x" using assms(3) by simp
  finally have e: "\<bar>of_int (round ?x) - ?x\<bar> \<le> 0.02 * ?x" .
  have "\<bar>duration_of (pitchTimeStretch r pitch stretch b) - duration_of b * stretch\<bar> =
          \<bar>of_int (round ?x) - ?x\<bar> / ?sr"
    by (rule stretch_duration_error[OF assms(1,2)])
  also have "\<dots> \<le> (0.02 * ?x) / ?sr"
    by (intro divide_right_mono e less_imp_le sr)
  also have "\<dots> = 0.02 * \<bar>duration_of b * stretch\<bar>"
    using sr assms(2) by (simp add: duration_of_def abs_mult)
  finally show ?thesis by (simp add: within_tolerance_def)
qed

lemma stretch_four_seconds:
  assumes "0 < sampleRate b" "duration_of b = 4"
    and "stretch = 0.5 \<or> stretch = 1 \<or> stretch = 1.5"
  shows "duration_of (pitchTimeStretch r pitch stretch b) = 4 * stretch"
proof -
  let ?sr = "real_of_int (sampleRate b)"
  have sr: "0 < ?sr" using assms(1) by simp
  have n: "real (frameCount b) = 4 * ?sr"
    using assms(2) sr by (simp add: duration_of_def field_simps)
  have "\<exists>k::int. real (frameCount b) * stretch = of_int k"
  proof -
    have "real (frameCount b) * 0.5 = of_int (2 * sampleRate b)" using n by simp
    moreover have "real (frameCount b) * 1 = of_int (4 * sampleRate b)" using n by simp
    moreover have "real (frameCount b) * 1.5 = of_int (6 * sampleRate b)" using n by simp
    ultimately show ?thesis using assms(3) by metis
  qed
  then obtain k :: int where k: "real (frameCount b) * stretch = of_int k" by blast
  have "of_int (round (real (frameCount b) * stretch)) = real (frameCount b) * stretch"
    unfolding k by simp
  moreover have "0 \<le> stretch" using assms(3) by auto
  ultimately have "real (frameCount (pitchTimeStretch r pitch stretch b)) =
                     real (frameCount b) * stretch"
    using stretch_round[of stretch r pitch b] by simp
  then show ?thesis using n sr by (simp add: duration_of_def stretch_fields(2))
qed

lemma block_count_one: "0 < n \<Longrightarrow> n \<le> len \<Longrightarrow> block_count len n = 1"
proof -
  assume a: "0 < n" "n \<le> len"
  then have "len \<le> n + len - 1" "n + len - 1 < 2 * len" by simp_all
  then have "(n + len - 1) div len = 1"
    using a by (intro Euclidean_Rings.div_nat_eqI) simp_all
  then show ?thesis by (simp add: block_count_def)
qed

lemma run_stages_stretch:
  "run_stages (stretch_engine r len) q stage_order () blk =
     Inr (map (stretch_channel r (q Pitch) (q Stretch)
                 (nat (round (real (block_frames blk) * q Stretch)))) blk, ())"
  by (simp add: stage_order_def stretch_engine_def)

lemma append_to_empty: "append_block (map (\<lambda>c. []) xs) (map f xs) = map f xs"
  by (induction xs) (simp_all add: append_block_def)

lemma render_stretch:
  assumes v: "valid_buffer b" and ch: "channels b \<noteq> []"
    and n: "0 < frameCount b" "frameCount b \<le> len"
  shows "render (stretch_engine r len) b p f c =
           Inr (pitchTimeStretch r (clampParams p Pitch) (clampParams p Stretch) b, f 100 c)"
proof -
  let ?q = "clampParams p"
  have len: "\<forall>ch\<in>set (channels b). length ch = frameCount b"
    using v by (simp add: valid_buffer_def list_all_iff)
  have ib: "input_block len b 0 = channels b"
    using len n(2) by (simp add: input_block_def map_idI)
  obtain c0 cs where c0: "channels b = c0 # cs" using ch by (cases "channels b") auto
  have bf: "block_frames (channels b) = frameCount b"
    using len c0 by (simp add: block_frames_def)
  let ?m = "nat (round (real (frameCount b) * ?q Stretch))"
  let ?out = "map (stretch_channel r (?q Pitch) (?q Stretch) ?m) (channels b)"
  have rb: "render_blocks (stretch_engine r len) ?q b f 1 [0] () (map (\<lambda>c. []) (channels b)) c =
              Inr (?out, f 100 c)"
    using run_stages_stretch[of r len ?q "channels b"]
    by (simp add: ib bf append_to_empty stretch_engine_def)
  have fc: "(case ?out of [] \<Rightarrow> 0 | c # cs \<Rightarrow> length c) = ?m"
    by (simp add: c0 stretch_channel_def)
  have bl: "blockLength (stretch_engine r len) = len" "initialState (stretch_engine r len) = ()"
    by (simp_all add: stretch_engine_def)
  have "render (stretch_engine r len) b p f c =
          Inr (b\<lparr>channels := ?out, frameCount := ?m\<rparr>, f 100 c)"
    using v n rb fc by (simp add: render_def Let_def bl block_count_one)
  then show ?thesis by (simp add: pitchTimeStretch_def Let_def)
qed

text \<open>
  Claim C6. For every valid buffer and every stretch in \<open>[0.5, 1.5]\<close> the
  pitch/time-stretch stage produces a valid buffer of \<open>round(frameCount \<times> stretch)\<close>
  frames, so the output duration is the input duration times the stretch up to half a
  sample period; for a buffer of 4.0 s and a stretch of 0.5, 1.0 or 1.5 it is exactly
  \<open>4.0 \<times> stretch\<close>, and it is within 2 percent whenever \<open>frameCount \<times> stretch\<close> is at
  least 25. A pitch shift alone (stretch 1) leaves the frame count unchanged, whatever
  the pitch. Inside the pipeline, rendering a buffer in one block with an engine whose
  pitch/time-stretch stage is this one gives that output.
\<close>

theorem stretch_frame_count:
  assumes "valid_buffer b" and "0.5 \<le> stretch" and "stretch \<le> 1.5"
  shows "valid_buffer (pitchTimeStretch r pitch stretch b) \<and>
         real (frameCount (pitchTimeStretch r pitch stretch b)) =
           of_int (round (real (frameCount b) * stretch)) \<and>
         \<bar>duration_of (pitchTimeStretch r pitch stretch b) - duration_of b * stretch\<bar>
           \<le> 1 / (2 * real_of_int (sampleRate b)) \<and>
         (duration_of b = 4 \<and> (stretch = 0.5 \<or> stretch = 1 \<or> stretch = 1.5) \<longrightarrow>
            duration_of (pitchTimeStretch r pitch stretch b) = 4 * stretch) \<and>
         (25 \<le> real (frameCount b) * stretch \<longrightarrow>
            within_tolerance 0.02 (duration_of (pitchTimeStretch r pitch stretch b))
              (duration_of b * stretch)) \<and>
         frameCount (pitchTimeStretch r pitch 1 b) = frameCount b \<and>
         (channels b \<noteq> [] \<and> 0 < frameCount b \<and> frameCount b \<le> len \<and>
          p Stretch = stretch \<and> p Pitch = pitch \<and> - 12 \<le> pitch \<and> pitch \<le> 12 \<longrightarrow>
            render (stretch_engine r len) b p f c =
              Inr (pitchTimeStretch r pitch stretch b, f 100 c))"
proof -
  have sr: "0 < sampleRate b" using assms(1) by (simp add: valid_buffer_def)
  have s0: "0 \<le> stretch" using assms(2) by simp
  have a: "valid_buffer (pitchTimeStretch r pitch stretch b)"
    by (rule stretch_valid[OF assms(1)])
  have d: "duration_of b = 4 \<and> (stretch = 0.5 \<or> stretch = 1 \<or> stretch = 1.5) \<longrightarrow>
            duration_of (pitchTimeStretch r pitch stretch b) = 4 * stretch"
    using stretch_four_seconds[OF sr, of stretch r pitch] by blast
  have e: "25 \<le> real (frameCount b) * stretch \<longrightarrow>
            within_tolerance 0.02 (duration_of (pitchTimeStretch r pitch stretch b))
              (duration_of b * stretch)"
    using stretch_two_percent[OF sr s0, of r pitch] by blast
  have g: "frameCount (pitchTimeStretch r pitch 1 b) = frameCount b"
    by (simp add: stretch_fields)
  have h: "channels b \<noteq> [] \<and> 0 < frameCount b \<and> frameCount b \<le> len \<and>
          p Stretch = stretch \<and> p Pitch = pitch \<and> - 12 \<le> pitch \<and> pitch \<le> 12 \<longrightarrow>
            render (stretch_engine r len) b p f c =
              Inr (pitchTimeStretch r pitch stretch b, f 100 c)"
  proof
    assume h: "channels b \<noteq> [] \<and> 0 < frameCount b \<and> frameCount b \<le> len \<and>
          p Stretch = stretch \<and> p Pitch = pitch \<and> - 12 \<le> pitch \<and> pitch \<le> 12"
    then have "clampParams p Stretch = stretch" "clampParams p Pitch = pitch"
      using assms(2,3) by (simp_all add: clampParams_def clamp_def)
    then show "render (stretch_engine r len) b p f c =
              Inr (pitchTimeStretch r pitch stretch b, f 100 c)"
      using render_stretch[OF assms(1), of len r p f c] h by simp
  qed
  from a stretch_round[OF s0, of r pitch b] stretch_half_sample[OF sr s0, of r pitch] d e g h
  show ?thesis by blast
qed

theorem stretch_frame_count_witness:
  "valid_buffer four_second_buffer \<and> (0.5::real) \<le> 1.5 \<and> (1.5::real) \<le> 1.5 \<and>
   duration_of four_second_buffer = 4 \<and>
   frameCount (pitchTimeStretch hold_resample 7 1.5 four_second_buffer) = 264600 \<and>
   duration_of (pitchTimeStretch hold_resample 7 1.5 four_second_buffer) = 6 \<and>
   within_tolerance 0.02 (duration_of (pitchTimeStretch hold_resample 7 1.5 four_second_buffer))
     (duration_of four_second_buffer * 1.5) \<and>
   frameCount (pitchTimeStretch hold_resample 7 1 four_second_buffer) = 176400 \<and>
   render (stretch_engine hold_resample 176400) four_second_buffer
     (INITIAL_PARAMS(Stretch := 1.5, Pitch := 7)) record_progress [] =
     Inr (pitchTimeStretch hold_resample 7 1.5 four_second_buffer, [100])"
proof -
  have v: "valid_buffer four_second_buffer"
    by (simp add: valid_buffer_def four_second_buffer_def)
  have d: "duration_of four_second_buffer = 4"
    by (simp add: duration_of_def four_second_buffer_def)
  have n: "frameCount four_second_buffer = 176400" by (simp add: four_second_buffer_def)
  have r: "round (264600::real) = 264600" by simp
  have fc: "frameCount (pitchTimeStretch hold_resample 7 1.5 four_second_buffer) = 264600"
    by (simp add: stretch_fields n r)
  from stretch_frame_count[OF v, where stretch = "1.5" and r = hold_resample and pitch = 7
      and len = 176400 and p = "INITIAL_PARAMS(Stretch := 1.5, Pitch := 7)"
      and f = record_progress and c = "[]"] v d n fc
  show ?thesis by (simp add: within_tolerance_def record_progress_def four_second_buffer_def)
qed

subsection \<open>Parameter objects\<close>

lemma foldl_setProgress_frame:
  "objects (foldl (\<lambda>c p. setProgress p c) v tr) = objects v \<and>
   nextObject (foldl (\<lambda>c p. setProgress p c) v tr) = nextObject v \<and>
   paramsRef (foldl (\<lambda>c p. setProgress p c) v tr) = paramsRef v \<and>
   historyRefs (foldl (\<lambda>c p. setProgress p c) v tr) = historyRefs v \<and>
   historyPos (foldl (\<lambda>c p. setProgress p c) v tr) = historyPos v \<and>
   sourceBuffer (foldl (\<lambda>c p. setProgress p c) v tr) = sourceBuffer v"
  by (induction tr arbitrary: v) (simp_all add: setProgress_def)

lemma renderAudioFromBuffer_frame:
  assumes "renderAudioFromBuffer eng buf ref f v = Inr (out, v1)"
    and "f = setProgress \<or> f = (\<lambda>p u. u)"
  shows "objects v1 = (objects v)(nextObject v := clampParams (objects v ref)) \<and>
         paramsRef v1 = paramsRef v \<and> historyRefs v1 = historyRefs v \<and>
         historyPos v1 = historyPos v"
proof -
  let ?v0 = "v\<lparr>objects := (objects v)(nextObject v := clampParams (objects v ref)),
               nextObject := nextObject v + 1\<rparr>"
  have r: "render eng buf (clampParams (objects v ref)) f ?v0 = Inr (out, v1)"
    using assms(1) by (simp add: renderAudioFromBuffer_def new_object_def)
  obtain tr where v1: "v1 = foldl (\<lambda>c p. f p c) ?v0 tr"
    using r by (subst (asm) render_callback) (auto simp: map_sum_def split: sum.splits)
  show ?thesis
  proof (cases "f = setProgress")
    case True
    then show ?thesis using v1 foldl_setProgress_frame[of ?v0 tr] by simp
  next
    case False
    then have "f = (\<lambda>p u. u)" using assms(2) by simp
    moreover have "foldl (\<lambda>c p. c) ?v0 tr = ?v0" by (induction tr) simp_all
    ultimately show ?thesis using v1 by simp
  qed
qed

lemma handleProcess_frame:
  "(\<forall>r. r \<noteq> nextObject v \<longrightarrow> objects (handleProcess eng v) r = objects v r) \<and>
   paramsRef (handleProcess eng v) = paramsRef v \<and>
   historyRefs (handleProcess eng v) = historyRefs v \<and>
   historyPos (handleProcess eng v) = historyPos v"
proof (cases "sourceBuffer v")
  case None
  then show ?thesis by (simp add: handleProcess_def)
next
  case (Some buf)
  show ?thesis
  proof (cases "renderAudioFromBuffer eng buf (paramsRef v) setProgress (setProgress 0 v)")
    case (Inl e)
    then show ?thesis using Some by (simp add: handleProcess_def setProgress_def)
  next
    case (Inr res)
    obtain out v1 where res: "res = (out, v1)" by (cases res)
    have "renderAudioFromBuffer eng buf (paramsRef v) setProgress (setProgress 0 v) =
            Inr (out, v1)"
      using Inr res by simp
    from renderAudioFromBuffer_frame[OF this] Some Inr res
    show ?thesis by (simp add: handleProcess_def setProgress_def)
  qed
qed

lemma handlePreview_frame:
  "(\<forall>r. r \<noteq> nextObject v \<longrightarrow> objects (handlePreview eng v) r = objects v r) \<and>
   paramsRef (handlePreview eng v) = paramsRef v \<and>
   historyRefs (handlePreview eng v) = historyRefs v \<and>
   historyPos (handlePreview eng v) = historyPos v"
proof (cases "sourceBuffer v")
  case None
  then show ?thesis by (simp add: handlePreview_def)
next
  case (Some buf)
  show ?thesis
  proof (cases "renderAudioFromBuffer eng buf (paramsRef v) (\<lambda>p u. u) v")
    case (Inl e)
    then show ?thesis using Some by (simp add: handlePreview_def)
  next
    case (Inr res)
    obtain out v1 where res: "res = (out, v1)" by (cases res)
    have "renderAudioFromBuffer eng buf (paramsRef v) (\<lambda>p u. u) v = Inr (out, v1)"
      using Inr res by simp
    from renderAudioFromBuffer_frame[OF this] Some Inr res
    show ?thesis by (simp add: handlePreview_def)
  qed
qed

text \<open>
  Claim C3. \<open>handleAutoEnhance\<close> merges without mutation: the new parameter set is the old
  one overridden on exactly the keys of the suggestion, it is a new object, and the prior
  object and every other existing object are unchanged. Each render call
  (\<open>handleProcess\<close>, \<open>handlePreview\<close>) hands the engine the live parameter object; after
  the call \<open>params\<close> refers to the same object with the same contents, and every entry of
  the history is as it was.
\<close>

theorem params_merged_without_mutation:
  assumes "paramsRef v < nextObject v" and "list_all (\<lambda>r. r < nextObject v) (historyRefs v)"
    and "sourceBuffer v = Some buf"
    and "v1 = handleAutoEnhance (Suggests suggestions) v"
  shows "objects v1 (paramsRef v1) k =
           (case suggestions k of None \<Rightarrow> objects v (paramsRef v) k | Some x \<Rightarrow> x) \<and>
         paramsRef v1 \<noteq> paramsRef v \<and>
         objects v1 (paramsRef v) = objects v (paramsRef v) \<and>
         (\<forall>r. r < nextObject v \<longrightarrow> objects v1 r = objects v r) \<and>
         paramsRef (handleProcess eng v) = paramsRef v \<and>
         objects (handleProcess eng v) (paramsRef v) = objects v (paramsRef v) \<and>
         map (objects (handleProcess eng v)) (historyRefs (handleProcess eng v)) =
           map (objects v) (historyRefs v) \<and>
         paramsRef (handlePreview eng v) = paramsRef v \<and>
         objects (handlePreview eng v) (paramsRef v) = objects v (paramsRef v) \<and>
         map (objects (handlePreview eng v)) (historyRefs (handlePreview eng v)) =
           map (objects v) (historyRefs v)"
proof -
  have v1: "v1 = addToHistoryRef (nextObject v)
               (v\<lparr>objects := (objects v)(nextObject v :=
                      spread_merge (objects v (paramsRef v)) suggestions),
                  nextObject := nextObject v + 1, paramsRef := nextObject v\<rparr>)"
    using assms(3,4) by (simp add: handleAutoEnhance_def new_object_def)
  have p: "paramsRef v1 = nextObject v"
    and o: "objects v1 = (objects v)(nextObject v :=
                      spread_merge (objects v (paramsRef v)) suggestions)"
    by (simp_all add: v1 addToHistoryRef_def Let_def)
  have a: "objects v1 (paramsRef v1) k =
           (case suggestions k of None \<Rightarrow> objects v (paramsRef v) k | Some x \<Rightarrow> x)"
    by (simp add: p o spread_merge_def)
  have b: "paramsRef v1 \<noteq> paramsRef v" using assms(1) p by simp
  have c: "\<forall>r. r < nextObject v \<longrightarrow> objects v1 r = objects v r" by (simp add: o)
  then have d: "objects v1 (paramsRef v) = objects v (paramsRef v)" using assms(1) by simp
  have hist: "\<forall>r\<in>set (historyRefs v). r \<noteq> nextObject v"
    using assms(2) by (auto simp: list_all_iff)
  note fp = handleProcess_frame[of v eng] and fv = handlePreview_frame[of v eng]
  have e: "objects (handleProcess eng v) (paramsRef v) = objects v (paramsRef v)"
    using fp assms(1) by simp
  have f: "map (objects (handleProcess eng v)) (historyRefs (handleProcess eng v)) =
           map (objects v) (historyRefs v)"
    using fp hist by simp
  have g: "objects (handlePreview eng v) (paramsRef v) = objects v (paramsRef v)"
    using fv assms(1) by simp
  have h: "map (objects (handlePreview eng v)) (historyRefs (handlePreview eng v)) =
           map (objects v) (historyRefs v)"
    using fv hist by simp
  from a b c d e f g h fp fv show ?thesis by blast
qed

lemma example_render:
  "render passthrough_engine five_frame_buffer q record_progress [] =
     Inr (five_frame_buffer, [33, 66, 100])"
proof -
  have u: "[0..<3] = [0, 1, 2]" by (simp add: upt_rec)
  show ?thesis
    by (simp add: render_def Let_def valid_buffer_def five_frame_buffer_def
          passthrough_engine_def block_count_def u stage_order_def input_block_def
          append_block_def record_progress_def)
qed

theorem params_merged_without_mutation_witness:
  "paramsRef example_view < nextObject example_view \<and>
   list_all (\<lambda>r. r < nextObject example_view) (historyRefs example_view) \<and>
   sourceBuffer example_view = Some five_frame_buffer \<and>
   objects (handleAutoEnhance (Suggests [Denoise \<mapsto> 0.4, Master \<mapsto> 2]) example_view)
     (paramsRef (handleAutoEnhance (Suggests [Denoise \<mapsto> 0.4, Master \<mapsto> 2]) example_view))
     Denoise = 0.4 \<and>
   objects (handleAutoEnhance (Suggests [Denoise \<mapsto> 0.4, Master \<mapsto> 2]) example_view)
     (paramsRef example_view) Denoise = 0.1 \<and>
   processedBlob (handleProcess passthrough_engine example_view) = Some five_frame_buffer \<and>
   objects (handleProcess passthrough_engine example_view) (paramsRef example_view) Pitch = 40 \<and>
   objects (handleProcess passthrough_engine example_view) 1 Pitch = 12"
proof -
  have a: "paramsRef example_view < nextObject example_view"
    and h: "list_all (\<lambda>r. r < nextObject example_view) (historyRefs example_view)"
    and b: "sourceBuffer example_view = Some five_frame_buffer"
    and c: "objects example_view (paramsRef example_view) = INITIAL_PARAMS(Pitch := 40)"
    by (simp_all add: example_view_def)
  have r: "render passthrough_engine five_frame_buffer q setProgress u =
             Inr (five_frame_buffer, setProgress 100 u)" for q u
    by (subst render_callback) (simp add: example_render setProgress_def)
  have pr: "processedBlob (handleProcess passthrough_engine example_view) =
              Some five_frame_buffer \<and>
            objects (handleProcess passthrough_engine example_view) 1 Pitch = 12"
    by (simp add: handleProcess_def renderAudioFromBuffer_def new_object_def r
          setProgress_def example_view_def clampParams_def clamp_def)
  from params_merged_without_mutation[OF a h b refl,
      of "[Denoise \<mapsto> 0.4, Master \<mapsto> 2]" Denoise passthrough_engine] a h b c pr
  show ?thesis by simp
qed

end
